theory Spec2Isabelle
  imports Complex_Main "HOL-Library.Multiset"
begin

section \<open>The data model of main.go\<close>

text \<open>
  The Go program keeps every order behind a pointer (\<^verbatim>\<open>*Order\<close>): the id map and the
  price levels hold the same pointer, and the amendment and matching code writes through
  it. The embedding therefore has an explicit store: a pointer is an address, and the
  field \<open>heap\<close> of the book state maps an address to the \<^verbatim>\<open>Order\<close> object that lives
  there. The caller allocates the objects; the operations only read and write them. A
  pointer here is never \<^verbatim>\<open>nil\<close> (a call with \<^verbatim>\<open>nil\<close> panics before it changes anything).

  \<^verbatim>\<open>float64\<close> prices and quantities are modelled by \<open>real\<close>: comparison, the
  source's own \<^verbatim>\<open>min\<close> and subtraction on the finite values an order carries. IEEE
  rounding, infinities and NaN are outside this model.
\<close>

type_synonym ptr = nat

record Order =
  OrderID :: string
  Price :: real
  Quantity :: real
  Timestamp :: nat
  Side :: string

text \<open>\<^verbatim>\<open>PriceLevel\<close>: the fields \<^verbatim>\<open>Price\<close>, \<^verbatim>\<open>Orders\<close>, \<^verbatim>\<open>Side\<close>, suffixed with L
  since \<^verbatim>\<open>Order\<close> and \<^verbatim>\<open>OrderBook\<close> use the same field names.\<close>

record PriceLevel =
  PriceL :: real
  OrdersL :: "ptr list"
  SideL :: string

definition Less :: "PriceLevel \<Rightarrow> PriceLevel \<Rightarrow> bool" where
  "Less p than =
     (if SideL p = ''buy'' then PriceL p > PriceL than else PriceL p < PriceL than)"

subsection \<open>The ordered index (github.com/google/btree, used through its contract)\<close>

text \<open>
  The B-tree is an external library. It is modelled by what its documentation promises:
  an ordered collection of items without duplicates, where two items are the same when
  neither is \<^verbatim>\<open>Less\<close> than the other. The collection is the list of its items in
  ascending \<^verbatim>\<open>Less\<close> order (what \<^verbatim>\<open>Ascend\<close> enumerates), and every operation
  decides with the source's comparator \<open>Less\<close> alone.
\<close>

type_synonym BTree = "PriceLevel list"

fun tree_Get :: "PriceLevel \<Rightarrow> BTree \<Rightarrow> PriceLevel option" where
  "tree_Get key [] = None"
| "tree_Get key (item # rest) =
     (if Less key item then None
      else if Less item key then tree_Get key rest
      else Some item)"

fun tree_ReplaceOrInsert :: "PriceLevel \<Rightarrow> BTree \<Rightarrow> BTree" where
  "tree_ReplaceOrInsert new [] = [new]"
| "tree_ReplaceOrInsert new (item # rest) =
     (if Less new item then new # item # rest
      else if Less item new then item # tree_ReplaceOrInsert new rest
      else new # rest)"

fun tree_Delete :: "PriceLevel \<Rightarrow> BTree \<Rightarrow> BTree" where
  "tree_Delete key [] = []"
| "tree_Delete key (item # rest) =
     (if Less key item then item # rest
      else if Less item key then item # tree_Delete key rest
      else rest)"

definition tree_Min :: "BTree \<Rightarrow> PriceLevel option" where
  "tree_Min tree = (case tree of [] \<Rightarrow> None | item # _ \<Rightarrow> Some item)"

definition tree_Len :: "BTree \<Rightarrow> nat" where
  "tree_Len tree = length tree"

subsection \<open>The book\<close>

text \<open>\<^verbatim>\<open>OrderBook\<close> with its four fields, and the store the \<^verbatim>\<open>*Order\<close> pointers
  point into.\<close>

record OrderBook =
  BuyTree :: BTree
  SellTree :: BTree
  Orders :: "string \<rightharpoonup> ptr"
  LastTradedPrice :: real
  heap :: "ptr \<Rightarrow> Order"

definition NewOrderBook :: "(ptr \<Rightarrow> Order) \<Rightarrow> OrderBook" where
  "NewOrderBook h =
     \<lparr>BuyTree = [], SellTree = [], Orders = Map.empty, LastTradedPrice = 0, heap = h\<rparr>"

section \<open>Admission, cancellation, amendment\<close>

text \<open>Lines 65 to 73 of \<^verbatim>\<open>AddOrder\<close>, on the tree that lines 58 to 63 selected.\<close>

definition add_to_tree :: "ptr \<Rightarrow> PriceLevel \<Rightarrow> BTree \<Rightarrow> BTree" where
  "add_to_tree order priceLevel tree =
     (case tree_Get priceLevel tree of
        Some existingLevel \<Rightarrow>
          tree_ReplaceOrInsert (existingLevel\<lparr>OrdersL := OrdersL existingLevel @ [order]\<rparr>) tree
      | None \<Rightarrow> tree_ReplaceOrInsert (priceLevel\<lparr>OrdersL := [order]\<rparr>) tree)"

definition AddOrder :: "ptr \<Rightarrow> OrderBook \<Rightarrow> OrderBook" where
  "AddOrder order ob =
     (let ob1 = ob\<lparr>Orders := (Orders ob)(OrderID (heap ob order) \<mapsto> order)\<rparr>;
          priceLevel = \<lparr>PriceL = Price (heap ob order), OrdersL = [],
                        SideL = Side (heap ob order)\<rparr>
      in if Side (heap ob order) = ''buy''
         then ob1\<lparr>BuyTree := add_to_tree order priceLevel (BuyTree ob1)\<rparr>
         else ob1\<lparr>SellTree := add_to_tree order priceLevel (SellTree ob1)\<rparr>)"

text \<open>The \<^verbatim>\<open>for idx, ord := range existingLevel.Orders\<close> loop of \<^verbatim>\<open>removeOrder\<close>: the
  sequence without the first order that carries the identifier, or \<open>None\<close> when the loop
  ends without reaching its \<^verbatim>\<open>break\<close>.\<close>

fun remove_by_id :: "(ptr \<Rightarrow> Order) \<Rightarrow> string \<Rightarrow> ptr list \<Rightarrow> ptr list option" where
  "remove_by_id h oid [] = None"
| "remove_by_id h oid (ord # rest) =
     (if OrderID (h ord) = oid then Some rest
      else map_option ((#) ord) (remove_by_id h oid rest))"

definition remove_from_tree :: "(ptr \<Rightarrow> Order) \<Rightarrow> ptr \<Rightarrow> BTree \<Rightarrow> BTree" where
  "remove_from_tree h order tree =
     (case tree_Get \<lparr>PriceL = Price (h order), OrdersL = [], SideL = Side (h order)\<rparr> tree of
        None \<Rightarrow> tree
      | Some existingLevel \<Rightarrow>
          (case remove_by_id h (OrderID (h order)) (OrdersL existingLevel) of
             None \<Rightarrow> tree
           | Some remaining \<Rightarrow>
               if length remaining = 0
               then tree_Delete (existingLevel\<lparr>OrdersL := remaining\<rparr>) tree
               else tree_ReplaceOrInsert (existingLevel\<lparr>OrdersL := remaining\<rparr>) tree))"

definition removeOrder :: "ptr \<Rightarrow> OrderBook \<Rightarrow> OrderBook" where
  "removeOrder order ob =
     (if Side (heap ob order) = ''buy''
      then ob\<lparr>BuyTree := remove_from_tree (heap ob) order (BuyTree ob)\<rparr>
      else ob\<lparr>SellTree := remove_from_tree (heap ob) order (SellTree ob)\<rparr>)"

text \<open>An operation that returns a Go \<^verbatim>\<open>error\<close> returns the pair of that error
  (\<open>None\<close> for \<^verbatim>\<open>nil\<close>, otherwise the message) and the book it leaves behind.\<close>

definition RemoveOrder :: "string \<Rightarrow> OrderBook \<Rightarrow> string option \<times> OrderBook" where
  "RemoveOrder orderID ob =
     (case Orders ob orderID of
        None \<Rightarrow> (Some ''order not found'', ob)
      | Some order \<Rightarrow>
          (let ob1 = removeOrder order ob
           in (None, ob1\<lparr>Orders := (Orders ob1)(orderID := None)\<rparr>)))"

definition ModifyOrderPrice :: "string \<Rightarrow> real \<Rightarrow> OrderBook \<Rightarrow> string option \<times> OrderBook" where
  "ModifyOrderPrice orderID newPrice ob =
     (case Orders ob orderID of
        None \<Rightarrow> (Some ''order not found'', ob)
      | Some order \<Rightarrow>
          (let ob1 = removeOrder order ob;
               ob2 = ob1\<lparr>heap := (heap ob1)(order := (heap ob1 order)\<lparr>Price := newPrice\<rparr>)\<rparr>
           in (None, AddOrder order ob2)))"

definition ModifyOrderSide :: "string \<Rightarrow> string \<Rightarrow> OrderBook \<Rightarrow> string option \<times> OrderBook" where
  "ModifyOrderSide orderID newSide ob =
     (if newSide \<noteq> ''buy'' \<and> newSide \<noteq> ''sell'' then (Some ''invalid side'', ob)
      else case Orders ob orderID of
        None \<Rightarrow> (Some ''order not found'', ob)
      | Some order \<Rightarrow>
          (let ob1 = removeOrder order ob;
               ob2 = ob1\<lparr>heap := (heap ob1)(order := (heap ob1 order)\<lparr>Side := newSide\<rparr>)\<rparr>
           in (None, AddOrder order ob2)))"

definition ModifyOrderQuantity :: "string \<Rightarrow> real \<Rightarrow> OrderBook \<Rightarrow> string option \<times> OrderBook" where
  "ModifyOrderQuantity orderID newQuantity ob =
     (if newQuantity < 0 then (Some ''invalid quantity'', ob)
      else case Orders ob orderID of
        None \<Rightarrow> (Some ''order not found'', ob)
      | Some order \<Rightarrow>
          if newQuantity = 0
          then (let ob1 = removeOrder order ob
                in (None, ob1\<lparr>Orders := (Orders ob1)(orderID := None)\<rparr>))
          else (None, ob\<lparr>heap := (heap ob)(order := (heap ob order)\<lparr>Quantity := newQuantity\<rparr>)\<rparr>))"

section \<open>Matching\<close>

text \<open>The source's own \<^verbatim>\<open>min\<close> (line 265).\<close>

definition min_f :: "real \<Rightarrow> real \<Rightarrow> real" where
  "min_f a b = (if a < b then a else b)"

text \<open>What the \<^verbatim>\<open>Printf\<close> of a trade reports.\<close>

record Trade =
  buyID :: string
  sellID :: string
  tradePrice :: real
  tradeQuantity :: real

text \<open>One pass through the body of the \<^verbatim>\<open>for\<close> loop of \<^verbatim>\<open>MatchOrders\<close>: it leaves the
  loop (\<open>Break\<close>), panics on \<^verbatim>\<open>Orders[0]\<close> of an empty level (\<open>Panic\<close>), or executes one
  trade and goes round again (\<open>Continue\<close>).\<close>

datatype step = Break | Panic | Continue Trade OrderBook

definition set_Quantity :: "ptr \<Rightarrow> real \<Rightarrow> OrderBook \<Rightarrow> OrderBook" where
  "set_Quantity order q ob = ob\<lparr>heap := (heap ob)(order := (heap ob order)\<lparr>Quantity := q\<rparr>)\<rparr>"

text \<open>Lines 211 to 214 (and 216 to 219): \<^verbatim>\<open>if order.Quantity == 0 { ob.removeOrder(order);
  delete(ob.Orders, order.OrderID) }\<close>.\<close>

definition remove_if_filled :: "ptr \<Rightarrow> OrderBook \<Rightarrow> OrderBook" where
  "remove_if_filled order ob =
     (if Quantity (heap ob order) = 0
      then (let ob1 = removeOrder order ob
            in ob1\<lparr>Orders := (Orders ob1)(OrderID (heap ob1 order) := None)\<rparr>)
      else ob)"

definition match_step :: "OrderBook \<Rightarrow> step" where
  "match_step ob =
     (case tree_Min (BuyTree ob) of
        None \<Rightarrow> Break
      | Some highestBuy \<Rightarrow>
          (case tree_Min (SellTree ob) of
             None \<Rightarrow> Break
           | Some lowestSell \<Rightarrow>
               if PriceL highestBuy \<ge> PriceL lowestSell
               then (case OrdersL highestBuy of
                       [] \<Rightarrow> Panic
                     | buyOrder # _ \<Rightarrow>
                         (case OrdersL lowestSell of
                            [] \<Rightarrow> Panic
                          | sellOrder # _ \<Rightarrow>
                              (let price = Price (heap ob sellOrder);
                                   ob1 = ob\<lparr>LastTradedPrice := price\<rparr>;
                                   quantity = min_f (Quantity (heap ob1 buyOrder))
                                                    (Quantity (heap ob1 sellOrder));
                                   trade = \<lparr>buyID = OrderID (heap ob1 buyOrder),
                                            sellID = OrderID (heap ob1 sellOrder),
                                            tradePrice = price, tradeQuantity = quantity\<rparr>;
                                   ob2 = set_Quantity buyOrder
                                           (Quantity (heap ob1 buyOrder) - quantity) ob1;
                                   ob3 = set_Quantity sellOrder
                                           (Quantity (heap ob2 sellOrder) - quantity) ob2;
                                   ob4 = remove_if_filled buyOrder ob3;
                                   ob5 = remove_if_filled sellOrder ob4
                               in Continue trade ob5)))
               else Break))"

text \<open>The loop. It need not come to an end, so \<open>None\<close> is the run that never returns;
  \<open>Some None\<close> is the run that panics and \<open>Some (Some ob)\<close> the run that returns, with the
  book it leaves.\<close>

partial_function (option) MatchOrders :: "OrderBook \<Rightarrow> OrderBook option option" where
  "MatchOrders ob =
     (case match_step ob of
        Break \<Rightarrow> Some (Some ob)
      | Panic \<Rightarrow> Some None
      | Continue trade ob' \<Rightarrow> MatchOrders ob')"

section \<open>Market data\<close>

definition GetBestBid :: "OrderBook \<Rightarrow> real \<times> bool" where
  "GetBestBid ob =
     (if tree_Len (BuyTree ob) = 0 then (0, False)
      else case tree_Min (BuyTree ob) of
             Some bestBidItem \<Rightarrow> (PriceL bestBidItem, True)
           | None \<Rightarrow> (0, False))"

definition GetBestAsk :: "OrderBook \<Rightarrow> real \<times> bool" where
  "GetBestAsk ob =
     (if tree_Len (SellTree ob) = 0 then (0, False)
      else case tree_Min (SellTree ob) of
             Some bestAskItem \<Rightarrow> (PriceL bestAskItem, True)
           | None \<Rightarrow> (0, False))"

definition GetMidPrice :: "OrderBook \<Rightarrow> real \<times> bool" where
  "GetMidPrice ob =
     (let (bestBid, hasBid) = GetBestBid ob;
          (bestAsk, hasAsk) = GetBestAsk ob
      in if hasBid \<and> hasAsk then ((bestBid + bestAsk) / 2, True) else (0, False))"

definition GetCurrentMarketPrice :: "OrderBook \<Rightarrow> real \<times> bool" where
  "GetCurrentMarketPrice ob =
     (if LastTradedPrice ob \<noteq> 0 then (LastTradedPrice ob, True)
      else (let (midPrice, ok) = GetMidPrice ob
            in if ok then (midPrice, True) else (0, False)))"

section \<open>The run of main\<close>

text \<open>The four orders that \<^verbatim>\<open>main\<close> allocates, at the addresses 1 to 4.\<close>

definition order_B1 :: Order where
  "order_B1 = \<lparr>OrderID = ''B1'', Price = 100, Quantity = 10, Timestamp = 1, Side = ''buy''\<rparr>"

definition order_S1 :: Order where
  "order_S1 = \<lparr>OrderID = ''S1'', Price = 105, Quantity = 5, Timestamp = 2, Side = ''sell''\<rparr>"

definition order_B2 :: Order where
  "order_B2 = \<lparr>OrderID = ''B2'', Price = 102, Quantity = 7, Timestamp = 3, Side = ''buy''\<rparr>"

definition order_S2 :: Order where
  "order_S2 = \<lparr>OrderID = ''S2'', Price = 99, Quantity = 8, Timestamp = 4, Side = ''sell''\<rparr>"

definition no_order :: Order where
  "no_order = \<lparr>OrderID = [], Price = 0, Quantity = 0, Timestamp = 0, Side = []\<rparr>"

definition main_heap :: "ptr \<Rightarrow> Order" where
  "main_heap = (\<lambda>_. no_order)(1 := order_B1, 2 := order_S1, 3 := order_B2, 4 := order_S2)"

definition main_book :: OrderBook where
  "main_book = AddOrder 4 (AddOrder 3 (AddOrder 2 (AddOrder 1 (NewOrderBook main_heap))))"

definition main_matched :: OrderBook where
  "main_matched =
     \<lparr>BuyTree = [\<lparr>PriceL = 100, OrdersL = [1], SideL = ''buy''\<rparr>],
      SellTree = [\<lparr>PriceL = 105, OrdersL = [2], SideL = ''sell''\<rparr>],
      Orders = [''B1'' \<mapsto> 1, ''S1'' \<mapsto> 2],
      LastTradedPrice = 99,
      heap = (\<lambda>_. no_order)(1 := order_B1\<lparr>Quantity := 9\<rparr>, 2 := order_S1,
               3 := order_B2\<lparr>Quantity := 0\<rparr>, 4 := order_S2\<lparr>Quantity := 0\<rparr>)\<rparr>"

text \<open>The loop body of \<^verbatim>\<open>MatchOrders\<close> once more, for the case that a trade happens
  between the orders at the addresses \<open>b\<close> (buy) and \<open>a\<close> (sell): the trade it prints and
  the book it leaves. \<open>match_step\<close> is shown equal to these below.\<close>

definition trade_of :: "OrderBook \<Rightarrow> ptr \<Rightarrow> ptr \<Rightarrow> Trade" where
  "trade_of ob b a =
     \<lparr>buyID = OrderID (heap ob b), sellID = OrderID (heap ob a),
      tradePrice = Price (heap ob a),
      tradeQuantity = min_f (Quantity (heap ob b)) (Quantity (heap ob a))\<rparr>"

definition after_trade :: "OrderBook \<Rightarrow> ptr \<Rightarrow> ptr \<Rightarrow> OrderBook" where
  "after_trade ob b a =
     (let ob1 = ob\<lparr>LastTradedPrice := Price (heap ob a)\<rparr>;
          q = min_f (Quantity (heap ob b)) (Quantity (heap ob a));
          ob2 = set_Quantity b (Quantity (heap ob1 b) - q) ob1;
          ob3 = set_Quantity a (Quantity (heap ob2 a) - q) ob2
      in remove_if_filled a (remove_if_filled b ob3))"

section \<open>Well-formed indexes, consistent books, reachable books\<close>

text \<open>\<^verbatim>\<open>Less\<close> looks at the side of its receiver only. \<open>on_side buy l\<close> says which
  way a level compares, and \<open>better buy a b\<close> is the order on prices that \<^verbatim>\<open>Less\<close> is on
  levels of that side: higher first for bids, lower first for asks.\<close>

definition on_side :: "bool \<Rightarrow> PriceLevel \<Rightarrow> bool" where
  "on_side buy l = ((SideL l = ''buy'') = buy)"

definition better :: "bool \<Rightarrow> real \<Rightarrow> real \<Rightarrow> bool" where
  "better buy a b = (if buy then b < a else a < b)"

text \<open>An index of one side: its levels compare the same way and stand in strictly
  ascending \<^verbatim>\<open>Less\<close> order, best first.\<close>

definition tree_ok :: "bool \<Rightarrow> BTree \<Rightarrow> bool" where
  "tree_ok buy tree = (sorted_wrt Less tree \<and> (\<forall>l\<in>set tree. on_side buy l))"

definition side_index_ok :: "bool \<Rightarrow> BTree \<Rightarrow> bool" where
  "side_index_ok buy tree = (tree_ok buy tree \<and> (\<forall>l\<in>set tree. OrdersL l \<noteq> []))"

definition index_ok :: "OrderBook \<Rightarrow> bool" where
  "index_ok ob = (side_index_ok True (BuyTree ob) \<and> side_index_ok False (SellTree ob))"

text \<open>The pointers an index holds, level by level in best-first order, and the pointers
  resting anywhere in the book.\<close>

definition ptrs :: "BTree \<Rightarrow> ptr list" where
  "ptrs tree = concat (map OrdersL tree)"

definition resting :: "OrderBook \<Rightarrow> ptr list" where
  "resting ob = ptrs (BuyTree ob) @ ptrs (SellTree ob)"

text \<open>The sequence of the level at a price, empty when the index has no such level.\<close>

definition orders_at :: "BTree \<Rightarrow> real \<Rightarrow> ptr list" where
  "orders_at tree price =
     (case find (\<lambda>l. PriceL l = price) tree of None \<Rightarrow> [] | Some l \<Rightarrow> OrdersL l)"

text \<open>Every order of an index is filed at the level of its own price, on its own side,
  and is the order the id map has for its identifier.\<close>

definition filed :: "bool \<Rightarrow> (ptr \<Rightarrow> Order) \<Rightarrow> (string \<rightharpoonup> ptr) \<Rightarrow> BTree \<Rightarrow> bool" where
  "filed buy h m tree =
     (\<forall>l\<in>set tree. \<forall>p\<in>set (OrdersL l).
        Price (h p) = PriceL l \<and> (Side (h p) = ''buy'') = buy \<and> m (OrderID (h p)) = Some p)"

text \<open>The two views agree as far as the levels go (\<open>views_agree\<close>: what holds between the
  removal and the re-admission of an amendment), and in both directions
  (\<open>book_consistent\<close>).\<close>

definition views_agree :: "OrderBook \<Rightarrow> bool" where
  "views_agree ob =
     (index_ok ob
      \<and> filed True (heap ob) (Orders ob) (BuyTree ob)
      \<and> filed False (heap ob) (Orders ob) (SellTree ob)
      \<and> distinct (resting ob)
      \<and> (\<forall>oid p. Orders ob oid = Some p \<longrightarrow> OrderID (heap ob p) = oid))"

definition book_consistent :: "OrderBook \<Rightarrow> bool" where
  "book_consistent ob =
     (views_agree ob \<and> (\<forall>oid p. Orders ob oid = Some p \<longrightarrow> p \<in> set (resting ob)))"



text \<open>The books the program can be in: \<^verbatim>\<open>NewOrderBook\<close>, then any calls of the exported
  operations. The store is whatever the caller has allocated, and only the operations
  write to it afterwards; \<^verbatim>\<open>AddOrder\<close> takes any pointer into it. A call of
  \<^verbatim>\<open>MatchOrders\<close> leads somewhere only when it returns.\<close>

inductive reachable :: "OrderBook \<Rightarrow> bool" where
  new: "reachable (NewOrderBook h)"
| add: "reachable ob \<Longrightarrow> reachable (AddOrder order ob)"
| remove: "reachable ob \<Longrightarrow> reachable (snd (RemoveOrder orderID ob))"
| price: "reachable ob \<Longrightarrow> reachable (snd (ModifyOrderPrice orderID newPrice ob))"
| side: "reachable ob \<Longrightarrow> reachable (snd (ModifyOrderSide orderID newSide ob))"
| quantity: "reachable ob \<Longrightarrow> reachable (snd (ModifyOrderQuantity orderID newQuantity ob))"
| match: "reachable ob \<Longrightarrow> MatchOrders ob = Some (Some ob') \<Longrightarrow> reachable ob'"

text \<open>The same, for a caller who keeps identifiers unique: \<^verbatim>\<open>AddOrder\<close> is only called
  with an order whose identifier the id map does not hold at that moment.\<close>

inductive reachable_unique_ids :: "OrderBook \<Rightarrow> bool" where
  new: "reachable_unique_ids (NewOrderBook h)"
| add: "reachable_unique_ids ob \<Longrightarrow> Orders ob (OrderID (heap ob order)) = None
         \<Longrightarrow> reachable_unique_ids (AddOrder order ob)"
| remove: "reachable_unique_ids ob \<Longrightarrow> reachable_unique_ids (snd (RemoveOrder orderID ob))"
| price: "reachable_unique_ids ob
         \<Longrightarrow> reachable_unique_ids (snd (ModifyOrderPrice orderID newPrice ob))"
| side: "reachable_unique_ids ob
         \<Longrightarrow> reachable_unique_ids (snd (ModifyOrderSide orderID newSide ob))"
| quantity: "reachable_unique_ids ob
         \<Longrightarrow> reachable_unique_ids (snd (ModifyOrderQuantity orderID newQuantity ob))"
| match: "reachable_unique_ids ob \<Longrightarrow> MatchOrders ob = Some (Some ob')
         \<Longrightarrow> reachable_unique_ids ob'"

section \<open>Books with one identifier admitted twice\<close>

text \<open>
  Three buy orders that carry the identifier A, at the addresses 1, 2 and 4, and a sell
  order S at address 3. \<open>dup_book\<close> admits the orders 1 and 2; \<open>zombie_book\<close> cancels A
  after that; \<open>crossed_book\<close> instead moves A to the price 90 and admits S at 95;
  \<open>stuck_book\<close> is the book after the first trade of \<^verbatim>\<open>MatchOrders\<close> on \<open>crossed_book\<close>.
  \<open>odd_heap\<close> has, at address 5, an order whose side is neither buy nor sell, with a
  negative price and the quantity zero.
\<close>

definition dup_heap :: "ptr \<Rightarrow> Order" where
  "dup_heap = (\<lambda>_. no_order)
     (1 := \<lparr>OrderID = ''A'', Price = 100, Quantity = 5, Timestamp = 1, Side = ''buy''\<rparr>,
      2 := \<lparr>OrderID = ''A'', Price = 100, Quantity = 5, Timestamp = 2, Side = ''buy''\<rparr>,
      3 := \<lparr>OrderID = ''S'', Price = 95, Quantity = 8, Timestamp = 3, Side = ''sell''\<rparr>,
      4 := \<lparr>OrderID = ''A'', Price = 100, Quantity = 1, Timestamp = 4, Side = ''buy''\<rparr>)"

definition dup_book :: OrderBook where
  "dup_book = AddOrder 2 (AddOrder 1 (NewOrderBook dup_heap))"

definition zombie_book :: OrderBook where
  "zombie_book = snd (RemoveOrder ''A'' dup_book)"



definition odd_heap :: "ptr \<Rightarrow> Order" where
  "odd_heap = main_heap
     (5 := \<lparr>OrderID = ''X1'', Price = - 3, Quantity = 0, Timestamp = 5, Side = ''hold''\<rparr>)"

section \<open>Lemmas\<close>

subsection \<open>The run of main\<close>

lemma main_book_eq:
  "main_book =
     \<lparr>BuyTree = [\<lparr>PriceL = 102, OrdersL = [3], SideL = ''buy''\<rparr>,
                 \<lparr>PriceL = 100, OrdersL = [1], SideL = ''buy''\<rparr>],
      SellTree = [\<lparr>PriceL = 99, OrdersL = [4], SideL = ''sell''\<rparr>,
                  \<lparr>PriceL = 105, OrdersL = [2], SideL = ''sell''\<rparr>],
      Orders = [''B1'' \<mapsto> 1, ''S1'' \<mapsto> 2, ''B2'' \<mapsto> 3, ''S2'' \<mapsto> 4],
      LastTradedPrice = 0, heap = main_heap\<rparr>"
  by (simp add: main_book_def AddOrder_def NewOrderBook_def main_heap_def add_to_tree_def
      Less_def order_B1_def order_S1_def order_B2_def order_S2_def)

lemma main_book_matched: "MatchOrders main_book = Some (Some main_matched)"
  unfolding main_book_eq
  by (simp add: MatchOrders.simps match_step_def tree_Min_def main_heap_def min_f_def
      set_Quantity_def remove_if_filled_def removeOrder_def remove_from_tree_def Less_def
      main_matched_def order_B1_def order_S1_def order_B2_def order_S2_def fun_upd_twist)

subsection \<open>The index operations as recursions over one side\<close>

lemma Less_on_side: "on_side b p \<Longrightarrow> Less p q = better b (PriceL p) (PriceL q)"
  by (auto simp: on_side_def Less_def better_def)

lemma on_side_OrdersL [simp]: "on_side b (l\<lparr>OrdersL := xs\<rparr>) = on_side b l"
  by (simp add: on_side_def)

lemma better_irrefl [simp]: "\<not> better b a a"
  by (simp add: better_def)

lemma better_total: "a \<noteq> c \<Longrightarrow> \<not> better b a c \<Longrightarrow> better b c a"
  by (auto simp: better_def)

lemma better_asym: "better b a c \<Longrightarrow> \<not> better b c a"
  by (auto simp: better_def)

lemma better_trans: "better b a c \<Longrightarrow> better b c d \<Longrightarrow> better b a d"
  by (auto simp: better_def)

lemma tree_Get_Some:
  "\<forall>l\<in>set t. on_side b l \<Longrightarrow> on_side b k \<Longrightarrow> tree_Get k t = Some x
     \<Longrightarrow> x \<in> set t \<and> PriceL x = PriceL k"
proof (induction t)
  case Nil then show ?case by simp
next
  case (Cons a t)
  then show ?case
    by (auto simp: Less_on_side split: if_splits dest: better_total)
qed

lemma add_to_tree_Nil: "add_to_tree p k [] = [k\<lparr>OrdersL := [p]\<rparr>]"
  by (simp add: add_to_tree_def)

lemma add_to_tree_Cons:
  assumes "\<forall>l\<in>set (x # xs). on_side b l" "on_side b k"
  shows "add_to_tree p k (x # xs) =
     (if better b (PriceL k) (PriceL x) then k\<lparr>OrdersL := [p]\<rparr> # x # xs
      else if PriceL k = PriceL x then x\<lparr>OrdersL := OrdersL x @ [p]\<rparr> # xs
      else x # add_to_tree p k xs)"
proof -
  have x: "on_side b x" and xs: "\<forall>l\<in>set xs. on_side b l" using assms by auto
  show ?thesis
  proof (cases "tree_Get k xs")
    case None
    then show ?thesis using x assms(2)
      by (auto simp: add_to_tree_def Less_on_side dest: better_total)
  next
    case (Some y)
    then have "y \<in> set xs" "PriceL y = PriceL k" "on_side b y"
      using tree_Get_Some[OF xs assms(2) Some] xs by auto
    then show ?thesis using x assms(2) Some
      by (auto simp: add_to_tree_def Less_on_side dest: better_total)
  qed
qed

lemma remove_from_tree_Nil: "remove_from_tree h p [] = []"
  by (simp add: remove_from_tree_def)

lemma remove_from_tree_Cons:
  assumes "\<forall>l\<in>set (x # xs). on_side b l" "(Side (h p) = ''buy'') = b"
  shows "remove_from_tree h p (x # xs) =
     (if better b (Price (h p)) (PriceL x) then x # xs
      else if Price (h p) = PriceL x then
        (case remove_by_id h (OrderID (h p)) (OrdersL x) of
           None \<Rightarrow> x # xs
         | Some r \<Rightarrow> if r = [] then xs else x\<lparr>OrdersL := r\<rparr> # xs)
      else x # remove_from_tree h p xs)"
proof -
  let ?k = "\<lparr>PriceL = Price (h p), OrdersL = [], SideL = Side (h p)\<rparr>"
  have k: "on_side b ?k" using assms(2) by (simp add: on_side_def)
  have x: "on_side b x" and xs: "\<forall>l\<in>set xs. on_side b l" using assms by auto
  show ?thesis
  proof (cases "tree_Get ?k xs")
    case None
    then show ?thesis using x k
      by (auto simp: remove_from_tree_def Less_on_side split: option.splits dest: better_total)
  next
    case (Some y)
    then have "y \<in> set xs" "PriceL y = Price (h p)" "on_side b y"
      using tree_Get_Some[OF xs k Some] xs by auto
    then show ?thesis using x k Some
      by (auto simp: remove_from_tree_def Less_on_side split: option.splits dest: better_total)
  qed
qed

subsection \<open>What admission and removal do to one index\<close>

lemma ptrs_simps [simp]: "ptrs [] = []" "ptrs (x # xs) = OrdersL x @ ptrs xs"
  by (simp_all add: ptrs_def)

lemma tree_ok_Nil [simp]: "tree_ok b []"
  by (simp add: tree_ok_def)

lemma tree_ok_Cons:
  "tree_ok b (x # xs) =
     (on_side b x \<and> (\<forall>y\<in>set xs. better b (PriceL x) (PriceL y)) \<and> tree_ok b xs)"
  by (auto simp: tree_ok_def Less_on_side)

lemma tree_ok_sides: "tree_ok b t \<Longrightarrow> \<forall>l\<in>set t. on_side b l"
  by (simp add: tree_ok_def)

lemma add_to_tree_prices:
  "\<forall>l\<in>set t. on_side b l \<Longrightarrow> on_side b k
     \<Longrightarrow> PriceL ` set (add_to_tree p k t) = insert (PriceL k) (PriceL ` set t)"
proof (induction t)
  case Nil then show ?case by (simp add: add_to_tree_Nil)
next
  case (Cons x xs)
  then show ?case by (auto simp: add_to_tree_Cons[OF Cons.prems])
qed

lemma add_to_tree_sides:
  "\<forall>l\<in>set t. on_side b l \<Longrightarrow> on_side b k \<Longrightarrow> \<forall>l\<in>set (add_to_tree p k t). on_side b l"
proof (induction t)
  case Nil then show ?case by (simp add: add_to_tree_Nil)
next
  case (Cons x xs)
  then show ?case by (auto simp: add_to_tree_Cons[OF Cons.prems])
qed

lemma add_to_tree_ok:
  "tree_ok b t \<Longrightarrow> on_side b k \<Longrightarrow> tree_ok b (add_to_tree p k t)"
proof (induction t)
  case Nil then show ?case by (simp add: add_to_tree_Nil tree_ok_Cons)
next
  case (Cons x xs)
  have s: "\<forall>l\<in>set (x # xs). on_side b l" using Cons.prems(1) by (rule tree_ok_sides)
  have s': "\<forall>l\<in>set xs. on_side b l" using s by simp
  have pr: "PriceL ` set (add_to_tree p k xs) = insert (PriceL k) (PriceL ` set xs)"
    using add_to_tree_prices[OF s' Cons.prems(2)] .
  have ih: "tree_ok b (add_to_tree p k xs)"
    using Cons by (simp add: tree_ok_Cons)
  show ?case
  proof (cases "better b (PriceL k) (PriceL x)")
    case True
    then show ?thesis using Cons.prems
      by (auto simp: add_to_tree_Cons[OF s Cons.prems(2)] tree_ok_Cons intro: better_trans)
  next
    case False
    show ?thesis
    proof (cases "PriceL k = PriceL x")
      case True
      then show ?thesis using Cons.prems
        by (auto simp: add_to_tree_Cons[OF s Cons.prems(2)] tree_ok_Cons)
    next
      case neq: False
      have "better b (PriceL x) (PriceL k)" using False neq by (metis better_total)
      moreover have "\<forall>y\<in>set (add_to_tree p k xs). PriceL y \<in> insert (PriceL k) (PriceL ` set xs)"
        using pr by blast
      ultimately have "\<forall>y\<in>set (add_to_tree p k xs). better b (PriceL x) (PriceL y)"
        using Cons.prems(1) by (auto simp: tree_ok_Cons)
      then show ?thesis using False neq ih Cons.prems
        by (simp add: add_to_tree_Cons[OF s Cons.prems(2)] tree_ok_Cons)
    qed
  qed
qed

lemma add_to_tree_ptrs:
  "\<forall>l\<in>set t. on_side b l \<Longrightarrow> on_side b k
     \<Longrightarrow> mset (ptrs (add_to_tree p k t)) = add_mset p (mset (ptrs t))"
proof (induction t)
  case Nil then show ?case by (simp add: add_to_tree_Nil)
next
  case (Cons x xs)
  then show ?case by (auto simp: add_to_tree_Cons[OF Cons.prems])
qed

lemma add_to_tree_filed:
  assumes "\<forall>l\<in>set t. on_side b l" "on_side b k"
    and "\<forall>l\<in>set t. OrdersL l \<noteq> [] \<and> (\<forall>q\<in>set (OrdersL l). R (PriceL l) q)"
    and "R (PriceL k) p"
  shows "\<forall>l\<in>set (add_to_tree p k t). OrdersL l \<noteq> [] \<and> (\<forall>q\<in>set (OrdersL l). R (PriceL l) q)"
  using assms
proof (induction t)
  case Nil then show ?case by (simp add: add_to_tree_Nil)
next
  case (Cons x xs)
  then show ?case by (auto simp: add_to_tree_Cons[OF Cons.prems(1,2)])
qed

lemma remove_by_id_None:
  "(remove_by_id h i xs = None) = (\<forall>q\<in>set xs. OrderID (h q) \<noteq> i)"
  by (induction xs) auto

lemma remove_by_id_subset:
  "remove_by_id h i xs = Some r \<Longrightarrow> set r \<subseteq> set xs"
  by (induction xs arbitrary: r) (auto split: if_splits)

lemma remove_by_id_remove1:
  "\<forall>q\<in>set xs. OrderID (h q) = OrderID (h p) \<longrightarrow> q = p \<Longrightarrow> p \<in> set xs
     \<Longrightarrow> remove_by_id h (OrderID (h p)) xs = Some (remove1 p xs)"
  by (induction xs) auto

lemma remove_from_tree_prices:
  "\<forall>l\<in>set t. on_side b l \<Longrightarrow> (Side (h p) = ''buy'') = b
     \<Longrightarrow> PriceL ` set (remove_from_tree h p t) \<subseteq> PriceL ` set t"
proof (induction t)
  case Nil then show ?case by (simp add: remove_from_tree_Nil)
next
  case (Cons x xs)
  then show ?case
    by (auto simp: remove_from_tree_Cons[where h=h and p=p, OF Cons.prems] split: option.splits)
qed

lemma remove_from_tree_ok:
  "tree_ok b t \<Longrightarrow> (Side (h p) = ''buy'') = b \<Longrightarrow> tree_ok b (remove_from_tree h p t)"
proof (induction t)
  case Nil then show ?case by (simp add: remove_from_tree_Nil)
next
  case (Cons x xs)
  have s: "\<forall>l\<in>set (x # xs). on_side b l" using Cons.prems(1) by (rule tree_ok_sides)
  have s': "\<forall>l\<in>set xs. on_side b l" using s by simp
  have pr: "PriceL ` set (remove_from_tree h p xs) \<subseteq> PriceL ` set xs"
    using remove_from_tree_prices[where h=h and p=p, OF s' Cons.prems(2)] .
  have ih: "tree_ok b (remove_from_tree h p xs)"
    using Cons by (simp add: tree_ok_Cons)
  have "\<forall>y\<in>set (remove_from_tree h p xs). better b (PriceL x) (PriceL y)"
    using pr Cons.prems(1) by (auto simp: tree_ok_Cons)
  then show ?case using ih Cons.prems
    by (auto simp: remove_from_tree_Cons[where h=h and p=p, OF s Cons.prems(2)] tree_ok_Cons split: option.splits)
qed

lemma remove_from_tree_filed:
  assumes "\<forall>l\<in>set t. on_side b l" "(Side (h p) = ''buy'') = b"
    and "\<forall>l\<in>set t. OrdersL l \<noteq> [] \<and> (\<forall>q\<in>set (OrdersL l). R (PriceL l) q)"
  shows "\<forall>l\<in>set (remove_from_tree h p t).
           OrdersL l \<noteq> [] \<and> (\<forall>q\<in>set (OrdersL l). R (PriceL l) q)"
  using assms
proof (induction t)
  case Nil then show ?case by (simp add: remove_from_tree_Nil)
next
  case (Cons x xs)
  have sub: "\<And>r q. remove_by_id h (OrderID (h p)) (OrdersL x) = Some r \<Longrightarrow> q \<in> set r
                  \<Longrightarrow> q \<in> set (OrdersL x)"
    using remove_by_id_subset by blast
  from Cons show ?case
    by (auto simp: remove_from_tree_Cons[where h=h and p=p, OF Cons.prems(1,2)]
        split: option.splits dest: sub)
qed

lemma remove_from_tree_ptrs:
  assumes "tree_ok b t" "(Side (h p) = ''buy'') = b"
    and "\<forall>l\<in>set t. \<forall>q\<in>set (OrdersL l).
           Price (h q) = PriceL l \<and> (OrderID (h q) = OrderID (h p) \<longrightarrow> q = p)"
  shows "ptrs (remove_from_tree h p t) = remove1 p (ptrs t)"
  using assms
proof (induction t)
  case Nil then show ?case by (simp add: remove_from_tree_Nil)
next
  case (Cons x xs)
  have s: "\<forall>l\<in>set (x # xs). on_side b l" using Cons.prems(1) by (rule tree_ok_sides)
  have ih: "ptrs (remove_from_tree h p xs) = remove1 p (ptrs xs)"
    using Cons by (simp add: tree_ok_Cons)
  have far: "\<forall>y\<in>set xs. better b (PriceL x) (PriceL y)"
    using Cons.prems(1) by (simp add: tree_ok_Cons)
  have filed: "\<forall>l\<in>set (x # xs). \<forall>q\<in>set (OrdersL l). Price (h q) = PriceL l"
    using Cons.prems(3) by blast
  have notin_xs: "p \<notin> set (ptrs xs)" if "\<not> better b (PriceL x) (Price (h p))"
  proof
    assume "p \<in> set (ptrs xs)"
    then obtain l where "l \<in> set xs" "p \<in> set (OrdersL l)" by (auto simp: ptrs_def)
    then have "Price (h p) = PriceL l" "better b (PriceL x) (PriceL l)"
      using filed far by auto
    with that show False by simp
  qed
  have notin_x: "p \<notin> set (OrdersL x)" if "Price (h p) \<noteq> PriceL x"
    using that filed by auto
  show ?case
  proof (cases "better b (Price (h p)) (PriceL x)")
    case True
    then have "\<not> better b (PriceL x) (Price (h p))" "Price (h p) \<noteq> PriceL x"
      using better_asym by auto
    then have "p \<notin> set (ptrs (x # xs))" using notin_xs notin_x by simp
    then show ?thesis using True
      by (simp add: remove_from_tree_Cons[where h=h and p=p, OF s Cons.prems(2)] remove1_idem del: ptrs_simps)
  next
    case False
    show ?thesis
    proof (cases "Price (h p) = PriceL x")
      case True
      then have nx: "p \<notin> set (ptrs xs)" using notin_xs by simp
      show ?thesis
      proof (cases "p \<in> set (OrdersL x)")
        case True
        have "remove_by_id h (OrderID (h p)) (OrdersL x) = Some (remove1 p (OrdersL x))"
          using Cons.prems(3) True by (intro remove_by_id_remove1) auto
        then show ?thesis using True False \<open>Price (h p) = PriceL x\<close>
          by (simp add: remove_from_tree_Cons[where h=h and p=p, OF s Cons.prems(2)] remove1_append)
      next
        case nin: False
        have "remove_by_id h (OrderID (h p)) (OrdersL x) = None"
          unfolding remove_by_id_None using Cons.prems(3) nin by auto
        then show ?thesis using nin nx False True
          by (simp add: remove_from_tree_Cons[where h=h and p=p, OF s Cons.prems(2)] remove1_idem)
      qed
    next
      case neq: False
      then have "p \<notin> set (OrdersL x)" using notin_x by simp
      then show ?thesis using False neq ih
        by (simp add: remove_from_tree_Cons[where h=h and p=p, OF s Cons.prems(2)] remove1_append)
    qed
  qed
qed

subsection \<open>Every operation keeps the indexes well-formed\<close>

lemma removeOrder_fields [simp]:
  "heap (removeOrder p ob) = heap ob"
  "Orders (removeOrder p ob) = Orders ob"
  "LastTradedPrice (removeOrder p ob) = LastTradedPrice ob"
  "BuyTree (removeOrder p ob) =
     (if Side (heap ob p) = ''buy'' then remove_from_tree (heap ob) p (BuyTree ob) else BuyTree ob)"
  "SellTree (removeOrder p ob) =
     (if Side (heap ob p) = ''buy'' then SellTree ob else remove_from_tree (heap ob) p (SellTree ob))"
  by (simp_all add: removeOrder_def)

lemma AddOrder_fields [simp]:
  "heap (AddOrder p ob) = heap ob"
  "Orders (AddOrder p ob) = (Orders ob)(OrderID (heap ob p) \<mapsto> p)"
  "LastTradedPrice (AddOrder p ob) = LastTradedPrice ob"
  "BuyTree (AddOrder p ob) =
     (if Side (heap ob p) = ''buy''
      then add_to_tree p \<lparr>PriceL = Price (heap ob p), OrdersL = [], SideL = Side (heap ob p)\<rparr>
             (BuyTree ob)
      else BuyTree ob)"
  "SellTree (AddOrder p ob) =
     (if Side (heap ob p) = ''buy'' then SellTree ob
      else add_to_tree p \<lparr>PriceL = Price (heap ob p), OrdersL = [], SideL = Side (heap ob p)\<rparr>
             (SellTree ob))"
  by (simp_all add: AddOrder_def Let_def)

lemma key_on_side:
  "on_side b \<lparr>PriceL = pr, OrdersL = [], SideL = sd\<rparr> = ((sd = ''buy'') = b)"
  by (simp add: on_side_def)

lemma in_ptrs: "(p \<in> set (ptrs t)) = (\<exists>l\<in>set t. p \<in> set (OrdersL l))"
  by (auto simp: ptrs_def)

lemma add_to_tree_nonempty:
  assumes "\<forall>l\<in>set t. on_side b l" "on_side b k" "\<forall>l\<in>set t. OrdersL l \<noteq> []"
  shows "\<forall>l\<in>set (add_to_tree p k t). OrdersL l \<noteq> []"
  using add_to_tree_filed[where R = "\<lambda>_ _. True", OF assms(1,2)] assms(3) by simp

lemma remove_from_tree_nonempty:
  assumes "\<forall>l\<in>set t. on_side b l" "(Side (h p) = ''buy'') = b" "\<forall>l\<in>set t. OrdersL l \<noteq> []"
  shows "\<forall>l\<in>set (remove_from_tree h p t). OrdersL l \<noteq> []"
  using remove_from_tree_filed[where R = "\<lambda>_ _. True" and h = h and p = p, OF assms(1,2)] assms(3)
  by simp

lemma side_index_ok_add:
  "side_index_ok b t \<Longrightarrow> on_side b k \<Longrightarrow> side_index_ok b (add_to_tree p k t)"
  unfolding side_index_ok_def
  using add_to_tree_ok add_to_tree_nonempty tree_ok_sides by blast

lemma side_index_ok_remove:
  "side_index_ok b t \<Longrightarrow> (Side (h p) = ''buy'') = b
     \<Longrightarrow> side_index_ok b (remove_from_tree h p t)"
  unfolding side_index_ok_def
  using remove_from_tree_ok[where h=h and p=p] remove_from_tree_nonempty[where h=h and p=p]
    tree_ok_sides by blast

lemma index_ok_AddOrder: "index_ok ob \<Longrightarrow> index_ok (AddOrder p ob)"
  by (simp add: index_ok_def side_index_ok_add key_on_side)

lemma index_ok_removeOrder: "index_ok ob \<Longrightarrow> index_ok (removeOrder p ob)"
  by (simp add: index_ok_def side_index_ok_remove)

lemma index_ok_update [simp]:
  "index_ok (ob\<lparr>heap := h\<rparr>) = index_ok ob"
  "index_ok (ob\<lparr>Orders := m\<rparr>) = index_ok ob"
  "index_ok (ob\<lparr>LastTradedPrice := x\<rparr>) = index_ok ob"
  by (simp_all add: index_ok_def)

lemma index_ok_New: "index_ok (NewOrderBook h)"
  by (simp add: index_ok_def side_index_ok_def NewOrderBook_def)

lemma index_ok_RemoveOrder: "index_ok ob \<Longrightarrow> index_ok (snd (RemoveOrder oid ob))"
  by (simp add: RemoveOrder_def Let_def index_ok_removeOrder split: option.splits)

lemma index_ok_ModifyOrderPrice: "index_ok ob \<Longrightarrow> index_ok (snd (ModifyOrderPrice oid x ob))"
  by (simp add: ModifyOrderPrice_def Let_def index_ok_removeOrder index_ok_AddOrder
      split: option.splits)

lemma index_ok_ModifyOrderSide: "index_ok ob \<Longrightarrow> index_ok (snd (ModifyOrderSide oid x ob))"
  by (simp add: ModifyOrderSide_def Let_def index_ok_removeOrder index_ok_AddOrder
      split: option.splits)

lemma index_ok_ModifyOrderQuantity:
  "index_ok ob \<Longrightarrow> index_ok (snd (ModifyOrderQuantity oid x ob))"
  by (simp add: ModifyOrderQuantity_def Let_def index_ok_removeOrder split: option.splits)

lemma index_ok_remove_if_filled: "index_ok ob \<Longrightarrow> index_ok (remove_if_filled p ob)"
  by (simp add: remove_if_filled_def Let_def index_ok_removeOrder)

lemma index_ok_match_step:
  "index_ok ob \<Longrightarrow> match_step ob = Continue t ob' \<Longrightarrow> index_ok ob'"
  by (auto simp: match_step_def Let_def set_Quantity_def index_ok_remove_if_filled
      split: option.splits if_splits list.splits)

lemma MatchOrders_invariant:
  assumes run: "MatchOrders ob = Some r"
    and step: "\<And>ob t ob'. P ob \<Longrightarrow> match_step ob = Continue t ob' \<Longrightarrow> P ob'"
  shows "P ob \<longrightarrow> (\<forall>ob'. r = Some ob' \<longrightarrow> P ob')"
  by (rule MatchOrders.raw_induct[where P = "\<lambda>ob r. P ob \<longrightarrow> (\<forall>ob'. r = Some ob' \<longrightarrow> P ob')",
        OF _ run])
     (auto split: step.splits dest: step)

lemma MatchOrders_Break:
  assumes run: "MatchOrders ob = Some r"
  shows "\<forall>ob'. r = Some ob' \<longrightarrow> match_step ob' = Break"
  by (rule MatchOrders.raw_induct[where P = "\<lambda>ob r. \<forall>ob'. r = Some ob' \<longrightarrow> match_step ob' = Break",
        OF _ run])
     (auto split: step.splits)

lemma index_ok_MatchOrders:
  "index_ok ob \<Longrightarrow> MatchOrders ob = Some (Some ob') \<Longrightarrow> index_ok ob'"
  using MatchOrders_invariant[of ob "Some ob'" index_ok] index_ok_match_step by blast

subsection \<open>Agreement of the id map and the levels\<close>

lemma resting_fields [simp]:
  "resting (ob\<lparr>LastTradedPrice := x\<rparr>) = resting ob"
  "resting (ob\<lparr>heap := h\<rparr>) = resting ob"
  "resting (ob\<lparr>Orders := m\<rparr>) = resting ob"
  by (simp_all add: resting_def)

lemma filed_remove_from_tree:
  assumes "side_index_ok b t" "(Side (h p) = ''buy'') = b" "filed b h m t"
  shows "filed b h m (remove_from_tree h p t)"
proof -
  let ?R = "\<lambda>pr q. Price (h q) = pr \<and> (Side (h q) = ''buy'') = b \<and> m (OrderID (h q)) = Some q"
  have 1: "\<forall>l\<in>set t. on_side b l" using assms(1) by (simp add: side_index_ok_def tree_ok_def)
  have 2: "\<forall>l\<in>set t. OrdersL l \<noteq> [] \<and> (\<forall>q\<in>set (OrdersL l). ?R (PriceL l) q)"
    using assms(1,3) by (simp add: side_index_ok_def filed_def)
  show ?thesis
    using remove_from_tree_filed[where R = ?R and h = h and p = p, OF 1 assms(2) 2]
    by (simp add: filed_def)
qed

lemma filed_add_to_tree:
  assumes "side_index_ok b t" "on_side b k" "filed b h m t"
    and "Price (h p) = PriceL k" "(Side (h p) = ''buy'') = b" "m (OrderID (h p)) = Some p"
  shows "filed b h m (add_to_tree p k t)"
proof -
  let ?R = "\<lambda>pr q. Price (h q) = pr \<and> (Side (h q) = ''buy'') = b \<and> m (OrderID (h q)) = Some q"
  have 1: "\<forall>l\<in>set t. on_side b l" using assms(1) by (simp add: side_index_ok_def tree_ok_def)
  have 2: "\<forall>l\<in>set t. OrdersL l \<noteq> [] \<and> (\<forall>q\<in>set (OrdersL l). ?R (PriceL l) q)"
    using assms(1,3) by (simp add: side_index_ok_def filed_def)
  have 3: "?R (PriceL k) p" using assms(4-6) by simp
  show ?thesis
    using add_to_tree_filed[where R = ?R, OF 1 assms(2) 2 3]
    by (simp add: filed_def)
qed

lemma filed_not_resting:
  "filed b h m t \<Longrightarrow> (Side (h p) = ''buy'') \<noteq> b \<Longrightarrow> p \<notin> set (ptrs t)"
  by (auto simp: filed_def in_ptrs)

lemma filed_registered:
  "filed b h m t \<Longrightarrow> q \<in> set (ptrs t) \<Longrightarrow> m (OrderID (h q)) = Some q"
  by (auto simp: filed_def in_ptrs)

lemma filed_map_upd:
  "filed b h m t \<Longrightarrow> \<forall>q\<in>set (ptrs t). OrderID (h q) \<noteq> i \<Longrightarrow> filed b h (m(i := v)) t"
  by (auto simp: filed_def in_ptrs)

lemma filed_heap:
  assumes "filed b h m t"
    and "\<forall>q\<in>set (ptrs t). OrderID (h' q) = OrderID (h q) \<and> Price (h' q) = Price (h q)
            \<and> Side (h' q) = Side (h q)"
  shows "filed b h' m t"
  unfolding filed_def
proof (intro ballI)
  fix l q assume l: "l \<in> set t" and q: "q \<in> set (OrdersL l)"
  then have "q \<in> set (ptrs t)" by (auto simp: in_ptrs)
  then have e: "OrderID (h' q) = OrderID (h q)" "Price (h' q) = Price (h q)"
    "Side (h' q) = Side (h q)"
    using assms(2) by auto
  have "Price (h q) = PriceL l \<and> (Side (h q) = ''buy'') = b \<and> m (OrderID (h q)) = Some q"
    using assms(1) l q by (simp add: filed_def)
  then show "Price (h' q) = PriceL l \<and> (Side (h' q) = ''buy'') = b
             \<and> m (OrderID (h' q)) = Some q"
    by (simp only: e)
qed

lemma ptrs_remove_from_tree:
  assumes "side_index_ok b t" "(Side (h p) = ''buy'') = b" "filed b h m t"
    and "m (OrderID (h p)) = Some p"
  shows "ptrs (remove_from_tree h p t) = remove1 p (ptrs t)"
proof (rule remove_from_tree_ptrs[where b = b])
  show "tree_ok b t" using assms(1) by (simp add: side_index_ok_def)
  show "(Side (h p) = ''buy'') = b" by fact
  show "\<forall>l\<in>set t. \<forall>q\<in>set (OrdersL l).
          Price (h q) = PriceL l \<and> (OrderID (h q) = OrderID (h p) \<longrightarrow> q = p)"
  proof (intro ballI conjI impI)
    fix l q assume l: "l \<in> set t" and q: "q \<in> set (OrdersL l)"
    then have f: "Price (h q) = PriceL l" "m (OrderID (h q)) = Some q"
      using assms(3) by (auto simp: filed_def)
    show "Price (h q) = PriceL l" by fact
    assume "OrderID (h q) = OrderID (h p)"
    then have "m (OrderID (h p)) = Some q" using f(2) by (simp only:)
    then show "q = p" using assms(4) by (simp only: option.inject)
  qed
qed

lemma views_agree_removeOrder:
  assumes va: "views_agree ob" and reg: "Orders ob (OrderID (heap ob p)) = Some p"
  shows "views_agree (removeOrder p ob) \<and> resting (removeOrder p ob) = remove1 p (resting ob)"
proof -
  have io: "side_index_ok True (BuyTree ob)" "side_index_ok False (SellTree ob)"
    and fb: "filed True (heap ob) (Orders ob) (BuyTree ob)"
    and fs: "filed False (heap ob) (Orders ob) (SellTree ob)"
    and d: "distinct (resting ob)"
    and ids: "\<forall>oid p. Orders ob oid = Some p \<longrightarrow> OrderID (heap ob p) = oid"
    using va by (auto simp: views_agree_def index_ok_def)
  have io': "index_ok (removeOrder p ob)"
    using va by (simp add: views_agree_def index_ok_removeOrder)
  show ?thesis
  proof (cases "Side (heap ob p) = ''buy''")
    case True
    have r: "ptrs (remove_from_tree (heap ob) p (BuyTree ob)) = remove1 p (ptrs (BuyTree ob))"
      using ptrs_remove_from_tree[OF io(1) _ fb reg] True by simp
    have n: "p \<notin> set (ptrs (SellTree ob))"
      using filed_not_resting[OF fs] True by simp
    have rest: "resting (removeOrder p ob) = remove1 p (resting ob)"
      using True r n by (simp add: resting_def remove1_append remove1_idem)
    have "filed True (heap ob) (Orders ob) (remove_from_tree (heap ob) p (BuyTree ob))"
      using filed_remove_from_tree[OF io(1) _ fb] True by simp
    then show ?thesis using True rest io' fs d ids
      by (simp add: views_agree_def)
  next
    case False
    have r: "ptrs (remove_from_tree (heap ob) p (SellTree ob)) = remove1 p (ptrs (SellTree ob))"
      using ptrs_remove_from_tree[OF io(2) _ fs reg] False by simp
    have n: "p \<notin> set (ptrs (BuyTree ob))"
      using filed_not_resting[OF fb] False by simp
    have rest: "resting (removeOrder p ob) = remove1 p (resting ob)"
      using False r n by (simp add: resting_def remove1_append)
    have "filed False (heap ob) (Orders ob) (remove_from_tree (heap ob) p (SellTree ob))"
      using filed_remove_from_tree[OF io(2) _ fs] False by simp
    then show ?thesis using False rest io' fb d ids
      by (simp add: views_agree_def)
  qed
qed

lemma distinct_add_mset:
  assumes "mset ys = add_mset p (mset xs)" "distinct xs" "p \<notin> set xs"
  shows "distinct ys"
proof -
  have "mset ys = mset (p # xs)" using assms(1) by simp
  then have "distinct ys = distinct (p # xs)" by (rule mset_eq_imp_distinct_iff)
  then show ?thesis using assms(2,3) by simp
qed

lemma views_agree_AddOrder:
  assumes va: "views_agree ob" and new: "p \<notin> set (resting ob)"
    and fresh: "\<forall>q\<in>set (resting ob). OrderID (heap ob q) \<noteq> OrderID (heap ob p)"
  shows "views_agree (AddOrder p ob)
         \<and> mset (resting (AddOrder p ob)) = add_mset p (mset (resting ob))"
proof -
  let ?m = "(Orders ob)(OrderID (heap ob p) \<mapsto> p)"
  let ?k = "\<lparr>PriceL = Price (heap ob p), OrdersL = [], SideL = Side (heap ob p)\<rparr>"
  have io: "side_index_ok True (BuyTree ob)" "side_index_ok False (SellTree ob)"
    and fb: "filed True (heap ob) (Orders ob) (BuyTree ob)"
    and fs: "filed False (heap ob) (Orders ob) (SellTree ob)"
    and d: "distinct (resting ob)"
    and ids: "\<forall>oid p. Orders ob oid = Some p \<longrightarrow> OrderID (heap ob p) = oid"
    using va by (auto simp: views_agree_def index_ok_def)
  have io': "index_ok (AddOrder p ob)"
    using va by (simp add: views_agree_def index_ok_AddOrder)
  have fb': "filed True (heap ob) ?m (BuyTree ob)"
    using fb fresh by (intro filed_map_upd) (auto simp: resting_def)
  have fs': "filed False (heap ob) ?m (SellTree ob)"
    using fs fresh by (intro filed_map_upd) (auto simp: resting_def)
  have ids': "\<forall>oid q. ?m oid = Some q \<longrightarrow> OrderID (heap ob q) = oid"
    using ids by auto
  show ?thesis
  proof (cases "Side (heap ob p) = ''buy''")
    case True
    have k: "on_side True ?k" using True by (simp add: on_side_def)
    have s: "\<forall>l\<in>set (BuyTree ob). on_side True l"
      using io(1) by (simp add: side_index_ok_def tree_ok_def)
    have m: "mset (ptrs (add_to_tree p ?k (BuyTree ob))) = add_mset p (mset (ptrs (BuyTree ob)))"
      using add_to_tree_ptrs[OF s k] .
    then have rest: "mset (resting (AddOrder p ob)) = add_mset p (mset (resting ob))"
      using True by (simp add: resting_def)
    have f1: "filed True (heap ob) ?m (add_to_tree p ?k (BuyTree ob))"
      using filed_add_to_tree[OF io(1) k fb'] True by simp
    have dist: "distinct (resting (AddOrder p ob))"
      using rest d new by (rule distinct_add_mset)
    have va': "views_agree (AddOrder p ob)"
      unfolding views_agree_def
    proof (intro conjI)
      show "index_ok (AddOrder p ob)" by fact
      show "filed True (heap (AddOrder p ob)) (Orders (AddOrder p ob)) (BuyTree (AddOrder p ob))"
        using f1 fb' True by (simp only: AddOrder_fields if_True if_False simp_thms)
      show "filed False (heap (AddOrder p ob)) (Orders (AddOrder p ob)) (SellTree (AddOrder p ob))"
        using f1 fs' True by (simp only: AddOrder_fields if_True if_False simp_thms)
      show "distinct (resting (AddOrder p ob))" by fact
      show "\<forall>oid q. Orders (AddOrder p ob) oid = Some q
              \<longrightarrow> OrderID (heap (AddOrder p ob) q) = oid"
        using ids' by (simp only: AddOrder_fields)
    qed
    show ?thesis using va' rest by (rule conjI)
  next
    case False
    have k: "on_side False ?k" using False by (simp add: on_side_def)
    have s: "\<forall>l\<in>set (SellTree ob). on_side False l"
      using io(2) by (simp add: side_index_ok_def tree_ok_def)
    have m: "mset (ptrs (add_to_tree p ?k (SellTree ob))) = add_mset p (mset (ptrs (SellTree ob)))"
      using add_to_tree_ptrs[OF s k] .
    then have rest: "mset (resting (AddOrder p ob)) = add_mset p (mset (resting ob))"
      using False by (simp add: resting_def)
    have f1: "filed False (heap ob) ?m (add_to_tree p ?k (SellTree ob))"
      using filed_add_to_tree[OF io(2) k fs'] False by simp
    have dist: "distinct (resting (AddOrder p ob))"
      using rest d new by (rule distinct_add_mset)
    have va': "views_agree (AddOrder p ob)"
      unfolding views_agree_def
    proof (intro conjI)
      show "index_ok (AddOrder p ob)" by fact
      show "filed True (heap (AddOrder p ob)) (Orders (AddOrder p ob)) (BuyTree (AddOrder p ob))"
        using f1 fb' False by (simp only: AddOrder_fields if_True if_False simp_thms)
      show "filed False (heap (AddOrder p ob)) (Orders (AddOrder p ob)) (SellTree (AddOrder p ob))"
        using f1 fs' False by (simp only: AddOrder_fields if_True if_False simp_thms)
      show "distinct (resting (AddOrder p ob))" by fact
      show "\<forall>oid q. Orders (AddOrder p ob) oid = Some q
              \<longrightarrow> OrderID (heap (AddOrder p ob) q) = oid"
        using ids' by (simp only: AddOrder_fields)
    qed
    show ?thesis using va' rest by (rule conjI)
  qed
qed

lemma views_agree_parts:
  assumes "views_agree ob"
  shows "index_ok ob" "side_index_ok True (BuyTree ob)" "side_index_ok False (SellTree ob)"
    "filed True (heap ob) (Orders ob) (BuyTree ob)"
    "filed False (heap ob) (Orders ob) (SellTree ob)"
    "distinct (resting ob)"
    "\<And>oid p. Orders ob oid = Some p \<Longrightarrow> OrderID (heap ob p) = oid"
  using assms by (simp_all add: views_agree_def index_ok_def)

lemma resting_Un: "set (resting ob) = set (ptrs (BuyTree ob)) \<union> set (ptrs (SellTree ob))"
  by (simp add: resting_def)

lemma views_agree_heap:
  assumes va: "views_agree ob"
    and oid: "\<And>q. OrderID (h' q) = OrderID (heap ob q)"
    and ps: "\<And>q. q \<in> set (resting ob)
                \<Longrightarrow> Price (h' q) = Price (heap ob q) \<and> Side (h' q) = Side (heap ob q)"
  shows "views_agree (ob\<lparr>heap := h'\<rparr>)"
proof -
  note parts = views_agree_parts[OF va]
  have f1: "filed True h' (Orders ob) (BuyTree ob)"
    using parts(4) by (rule filed_heap) (simp add: oid ps resting_Un)
  have f2: "filed False h' (Orders ob) (SellTree ob)"
    using parts(5) by (rule filed_heap) (simp add: oid ps resting_Un)
  have ids: "\<forall>oid p. Orders ob oid = Some p \<longrightarrow> OrderID (h' p) = oid"
    using parts(7) by (simp add: oid)
  show ?thesis
    unfolding views_agree_def
    using parts(1,6) f1 f2 ids by simp
qed

lemma views_agree_delete:
  assumes va: "views_agree ob"
    and free: "\<And>q. q \<in> set (resting ob) \<Longrightarrow> OrderID (heap ob q) \<noteq> oid"
  shows "views_agree (ob\<lparr>Orders := (Orders ob)(oid := None)\<rparr>)"
proof -
  note parts = views_agree_parts[OF va]
  have f1: "filed True (heap ob) ((Orders ob)(oid := None)) (BuyTree ob)"
    using parts(4) by (rule filed_map_upd) (simp add: free resting_Un)
  have f2: "filed False (heap ob) ((Orders ob)(oid := None)) (SellTree ob)"
    using parts(5) by (rule filed_map_upd) (simp add: free resting_Un)
  have ids: "\<forall>i p. ((Orders ob)(oid := None)) i = Some p \<longrightarrow> OrderID (heap ob p) = i"
    using parts(7) by simp
  show ?thesis
    unfolding views_agree_def
    using parts(1,6) f1 f2 ids by simp
qed

lemma views_agree_LastTradedPrice [simp]:
  "views_agree (ob\<lparr>LastTradedPrice := x\<rparr>) = views_agree ob"
  by (simp add: views_agree_def)

subsection \<open>The operations keep a book consistent\<close>

lemma views_agree_registered:
  assumes "views_agree ob" "q \<in> set (resting ob)"
  shows "Orders ob (OrderID (heap ob q)) = Some q"
  using assms filed_registered[of True "heap ob" "Orders ob" "BuyTree ob" q]
    filed_registered[of False "heap ob" "Orders ob" "SellTree ob" q]
  by (auto simp: views_agree_def resting_Un)

lemma book_consistent_parts:
  assumes "book_consistent ob"
  shows "views_agree ob" "\<And>oid p. Orders ob oid = Some p \<Longrightarrow> p \<in> set (resting ob)"
  using assms by (simp_all add: book_consistent_def)

lemma consistent_remove_delete:
  assumes bc: "book_consistent ob" and reg: "Orders ob oid = Some p"
  shows "book_consistent ((removeOrder p ob)\<lparr>Orders := (Orders ob)(oid := None)\<rparr>)"
    and "resting ((removeOrder p ob)\<lparr>Orders := (Orders ob)(oid := None)\<rparr>) = remove1 p (resting ob)"
proof -
  note va = book_consistent_parts(1)[OF bc]
  note parts = views_agree_parts[OF va]
  have idp: "OrderID (heap ob p) = oid" using parts(7)[OF reg] .
  have reg': "Orders ob (OrderID (heap ob p)) = Some p" using reg idp by simp
  have va1: "views_agree (removeOrder p ob)"
    and r1: "resting (removeOrder p ob) = remove1 p (resting ob)"
    using views_agree_removeOrder[OF va reg'] by simp_all
  have free: "OrderID (heap (removeOrder p ob) q) \<noteq> oid" if "q \<in> set (resting (removeOrder p ob))" for q
  proof
    assume e: "OrderID (heap (removeOrder p ob) q) = oid"
    have q: "q \<in> set (resting ob)" "q \<noteq> p"
      using that parts(6) by (simp_all add: r1)
    have "Orders ob (OrderID (heap ob q)) = Some q" using views_agree_registered[OF va q(1)] .
    then have "Orders ob oid = Some q" using e by simp
    then show False using reg q(2) by simp
  qed
  have va2: "views_agree ((removeOrder p ob)\<lparr>Orders := (Orders (removeOrder p ob))(oid := None)\<rparr>)"
    using va1 free by (rule views_agree_delete)
  then have va3: "views_agree ((removeOrder p ob)\<lparr>Orders := (Orders ob)(oid := None)\<rparr>)"
    by simp
  show r: "resting ((removeOrder p ob)\<lparr>Orders := (Orders ob)(oid := None)\<rparr>) = remove1 p (resting ob)"
    using r1 by simp
  have "p' \<in> set (remove1 p (resting ob))" if "((Orders ob)(oid := None)) i = Some p'" for i p'
  proof -
    have i: "i \<noteq> oid" "Orders ob i = Some p'" using that by (auto split: if_splits)
    have "p' \<in> set (resting ob)" using book_consistent_parts(2)[OF bc i(2)] .
    moreover have "p' \<noteq> p" using parts(7)[OF i(2)] idp i(1) by auto
    ultimately show ?thesis by simp
  qed
  then show "book_consistent ((removeOrder p ob)\<lparr>Orders := (Orders ob)(oid := None)\<rparr>)"
    unfolding book_consistent_def using va3 r by simp
qed

lemma consistent_AddOrder:
  assumes bc: "book_consistent ob" and fresh: "Orders ob (OrderID (heap ob p)) = None"
  shows "book_consistent (AddOrder p ob)"
proof -
  note va = book_consistent_parts(1)[OF bc]
  have new: "p \<notin> set (resting ob)"
    using views_agree_registered[OF va, of p] fresh by auto
  have ids: "\<forall>q\<in>set (resting ob). OrderID (heap ob q) \<noteq> OrderID (heap ob p)"
  proof
    fix q assume "q \<in> set (resting ob)"
    then have "Orders ob (OrderID (heap ob q)) = Some q" by (rule views_agree_registered[OF va])
    then show "OrderID (heap ob q) \<noteq> OrderID (heap ob p)" using fresh by auto
  qed
  have va': "views_agree (AddOrder p ob)"
    and r: "mset (resting (AddOrder p ob)) = add_mset p (mset (resting ob))"
    using views_agree_AddOrder[OF va new ids] by simp_all
  have s: "set (resting (AddOrder p ob)) = insert p (set (resting ob))"
    using r by (metis set_mset_add_mset_insert set_mset_mset)
  have "q \<in> set (resting (AddOrder p ob))" if "Orders (AddOrder p ob) i = Some q" for i q
    using that book_consistent_parts(2)[OF bc, of i q] s by (auto split: if_splits)
  then show ?thesis unfolding book_consistent_def using va' by blast
qed

lemma consistent_RemoveOrder:
  "book_consistent ob \<Longrightarrow> book_consistent (snd (RemoveOrder oid ob))"
  by (simp add: RemoveOrder_def Let_def consistent_remove_delete split: option.splits)

lemma consistent_heap:
  assumes bc: "book_consistent ob"
    and oid: "\<And>q. OrderID (h' q) = OrderID (heap ob q)"
    and ps: "\<And>q. q \<in> set (resting ob)
                \<Longrightarrow> Price (h' q) = Price (heap ob q) \<and> Side (h' q) = Side (heap ob q)"
  shows "book_consistent (ob\<lparr>heap := h'\<rparr>)"
  unfolding book_consistent_def
  using views_agree_heap[OF book_consistent_parts(1)[OF bc] oid ps] book_consistent_parts(2)[OF bc]
  by simp

lemma consistent_set_Quantity:
  "book_consistent ob \<Longrightarrow> book_consistent (set_Quantity p q ob)"
  unfolding set_Quantity_def by (rule consistent_heap) simp_all

lemma consistent_LastTradedPrice [simp]:
  "book_consistent (ob\<lparr>LastTradedPrice := x\<rparr>) = book_consistent ob"
  by (simp add: book_consistent_def)

lemma consistent_readd:
  assumes bc: "book_consistent ob" and reg: "Orders ob oid = Some p"
    and o': "OrderID o' = OrderID (heap ob p)"
  shows "book_consistent (AddOrder p ((removeOrder p ob)\<lparr>heap := (heap ob)(p := o')\<rparr>))"
proof -
  note va = book_consistent_parts(1)[OF bc]
  note parts = views_agree_parts[OF va]
  have idp: "OrderID (heap ob p) = oid" using parts(7)[OF reg] .
  have reg': "Orders ob (OrderID (heap ob p)) = Some p" using reg idp by simp
  let ?ob1 = "removeOrder p ob"
  let ?ob2 = "?ob1\<lparr>heap := (heap ob)(p := o')\<rparr>"
  have va1: "views_agree ?ob1" and r1: "resting ?ob1 = remove1 p (resting ob)"
    using views_agree_removeOrder[OF va reg'] by simp_all
  have p1: "p \<notin> set (resting ?ob1)" using parts(6) by (simp add: r1)
  have va2: "views_agree ?ob2"
  proof (rule views_agree_heap[OF va1])
    fix q show "OrderID (((heap ob)(p := o')) q) = OrderID (heap ?ob1 q)" using o' by simp
  next
    fix q assume "q \<in> set (resting ?ob1)"
    then have "q \<noteq> p" using p1 by auto
    then show "Price (((heap ob)(p := o')) q) = Price (heap ?ob1 q)
               \<and> Side (((heap ob)(p := o')) q) = Side (heap ?ob1 q)" by simp
  qed
  have r2: "resting ?ob2 = remove1 p (resting ob)" using r1 by simp
  have new: "p \<notin> set (resting ?ob2)" using p1 by simp
  have ids: "\<forall>q\<in>set (resting ?ob2). OrderID (heap ?ob2 q) \<noteq> OrderID (heap ?ob2 p)"
  proof
    fix q assume "q \<in> set (resting ?ob2)"
    then have q: "q \<in> set (resting ob)" "q \<noteq> p" using parts(6) by (simp_all add: r1)
    have "Orders ob (OrderID (heap ob q)) = Some q" using views_agree_registered[OF va q(1)] .
    then have "OrderID (heap ob q) \<noteq> oid" using reg q(2) by auto
    then show "OrderID (heap ?ob2 q) \<noteq> OrderID (heap ?ob2 p)" using q(2) o' idp by simp
  qed
  have va3: "views_agree (AddOrder p ?ob2)"
    and r3: "mset (resting (AddOrder p ?ob2)) = add_mset p (mset (resting ?ob2))"
    using views_agree_AddOrder[OF va2 new ids] by simp_all
  have "set (resting (AddOrder p ?ob2)) = insert p (set (resting ?ob2))"
    using r3 by (metis set_mset_add_mset_insert set_mset_mset)
  then have s: "set (resting (AddOrder p ?ob2)) = insert p (set (resting ob))"
    using parts(6) reg book_consistent_parts(2)[OF bc reg] by (auto simp: r1)
  have "q \<in> set (resting (AddOrder p ?ob2))" if "Orders (AddOrder p ?ob2) i = Some q" for i q
    using that book_consistent_parts(2)[OF bc, of i q] s by (auto split: if_splits)
  then show ?thesis unfolding book_consistent_def using va3 by blast
qed

lemma consistent_ModifyOrderPrice:
  "book_consistent ob \<Longrightarrow> book_consistent (snd (ModifyOrderPrice oid x ob))"
  by (simp add: ModifyOrderPrice_def Let_def consistent_readd split: option.splits)

lemma consistent_ModifyOrderSide:
  "book_consistent ob \<Longrightarrow> book_consistent (snd (ModifyOrderSide oid x ob))"
  by (simp add: ModifyOrderSide_def Let_def consistent_readd split: option.splits)

lemma consistent_ModifyOrderQuantity:
  "book_consistent ob \<Longrightarrow> book_consistent (snd (ModifyOrderQuantity oid x ob))"
  using consistent_set_Quantity[of ob]
  by (simp add: ModifyOrderQuantity_def Let_def consistent_remove_delete set_Quantity_def
      split: option.splits)

lemma consistent_New: "book_consistent (NewOrderBook h)"
  by (simp add: book_consistent_def views_agree_def index_ok_New)
     (simp add: NewOrderBook_def filed_def resting_def)

subsection \<open>Reachable books; the matching loop makes progress\<close>

lemma reachable_unique_ids_reachable: "reachable_unique_ids ob \<Longrightarrow> reachable ob"
  by (induction rule: reachable_unique_ids.induct) (auto intro: reachable.intros)

lemma reachable_index_ok: "reachable ob \<Longrightarrow> index_ok ob"
proof (induction rule: reachable.induct)
  case (new h) show ?case by (rule index_ok_New)
next
  case (add ob order) then show ?case by (simp add: index_ok_AddOrder)
next
  case (remove ob orderID) then show ?case by (simp add: index_ok_RemoveOrder)
next
  case (price ob orderID newPrice) then show ?case by (simp add: index_ok_ModifyOrderPrice)
next
  case (side ob orderID newSide) then show ?case by (simp add: index_ok_ModifyOrderSide)
next
  case (quantity ob orderID newQuantity)
  then show ?case by (simp add: index_ok_ModifyOrderQuantity)
next
  case (match ob ob') then show ?case using index_ok_MatchOrders by blast
qed

lemma set_Quantity_fields [simp]:
  "BuyTree (set_Quantity p q ob) = BuyTree ob"
  "SellTree (set_Quantity p q ob) = SellTree ob"
  "Orders (set_Quantity p q ob) = Orders ob"
  "LastTradedPrice (set_Quantity p q ob) = LastTradedPrice ob"
  "heap (set_Quantity p q ob) = (heap ob)(p := (heap ob p)\<lparr>Quantity := q\<rparr>)"
  "resting (set_Quantity p q ob) = resting ob"
  by (simp_all add: set_Quantity_def)

lemma remove_if_filled_heap [simp]: "heap (remove_if_filled p ob) = heap ob"
  by (simp add: remove_if_filled_def Let_def)

lemma remove_if_filled_LastTradedPrice [simp]:
  "LastTradedPrice (remove_if_filled p ob) = LastTradedPrice ob"
  by (simp add: remove_if_filled_def Let_def)

lemma consistent_remove_if_filled:
  assumes bc: "book_consistent ob" and p: "p \<in> set (resting ob)"
  shows "book_consistent (remove_if_filled p ob)"
    and "resting (remove_if_filled p ob) =
           (if Quantity (heap ob p) = 0 then remove1 p (resting ob) else resting ob)"
proof -
  have reg: "Orders ob (OrderID (heap ob p)) = Some p"
    using views_agree_registered[OF book_consistent_parts(1)[OF bc] p] .
  show "book_consistent (remove_if_filled p ob)"
    using bc consistent_remove_delete(1)[OF bc reg]
    by (simp add: remove_if_filled_def Let_def)
  show "resting (remove_if_filled p ob) =
           (if Quantity (heap ob p) = 0 then remove1 p (resting ob) else resting ob)"
    using consistent_remove_delete(2)[OF bc reg]
    by (simp add: remove_if_filled_def Let_def)
qed

lemma match_step_cross:
  assumes "BuyTree ob = hb # bt" "SellTree ob = ls # st" "PriceL ls \<le> PriceL hb"
    "OrdersL hb = b # bo" "OrdersL ls = a # ao"
  shows "match_step ob = Continue (trade_of ob b a) (after_trade ob b a)"
  using assms by (simp add: match_step_def tree_Min_def Let_def trade_of_def after_trade_def)

lemma match_step_cases:
  obtains (stop) "match_step ob = Break" "BuyTree ob = [] \<or> SellTree ob = []
                    \<or> (\<exists>hb bt ls st. BuyTree ob = hb # bt \<and> SellTree ob = ls # st
                           \<and> \<not> PriceL ls \<le> PriceL hb)"
  | (panic) hb bt ls st where "match_step ob = Panic" "BuyTree ob = hb # bt"
      "SellTree ob = ls # st" "OrdersL hb = [] \<or> OrdersL ls = []"
  | (trade) hb bt ls st b bo a ao where "BuyTree ob = hb # bt" "SellTree ob = ls # st"
      "PriceL ls \<le> PriceL hb" "OrdersL hb = b # bo" "OrdersL ls = a # ao"
      "match_step ob = Continue (trade_of ob b a) (after_trade ob b a)"
proof (cases "BuyTree ob")
  case Nil then show ?thesis using stop by (simp add: match_step_def tree_Min_def)
next
  case bc: (Cons hb bt)
  show ?thesis
  proof (cases "SellTree ob")
    case Nil then show ?thesis using stop bc by (simp add: match_step_def tree_Min_def)
  next
    case sc: (Cons ls st)
    show ?thesis
    proof (cases "PriceL ls \<le> PriceL hb")
      case False
      then show ?thesis using stop bc sc by (simp add: match_step_def tree_Min_def)
    next
      case True
      show ?thesis
      proof (cases "OrdersL hb")
        case Nil
        then show ?thesis using panic[OF _ bc sc] bc sc True
          by (simp add: match_step_def tree_Min_def)
      next
        case bo: (Cons b bo)
        show ?thesis
        proof (cases "OrdersL ls")
          case Nil
          then show ?thesis using panic[OF _ bc sc] bc sc True bo
            by (simp add: match_step_def tree_Min_def)
        next
          case ao: (Cons a ao)
          show ?thesis using trade[OF bc sc True bo ao] match_step_cross[OF bc sc True bo ao]
            by simp
        qed
      qed
    qed
  qed
qed

lemma min_f_zero: "a - min_f a b = 0 \<or> b - min_f a b = 0"
  by (simp add: min_f_def)

lemma consistent_after_trade:
  assumes bc: "book_consistent ob"
    and b: "b \<in> set (ptrs (BuyTree ob))" and a: "a \<in> set (ptrs (SellTree ob))"
  shows "book_consistent (after_trade ob b a)"
    and "length (resting (after_trade ob b a)) < length (resting ob)"
proof -
  note va = book_consistent_parts(1)[OF bc]
  note parts = views_agree_parts[OF va]
  have ab: "a \<noteq> b" using parts(6) a b by (auto simp: resting_def)
  have br: "b \<in> set (resting ob)" and ar: "a \<in> set (resting ob)"
    using a b by (simp_all add: resting_Un)
  define q where "q = min_f (Quantity (heap ob b)) (Quantity (heap ob a))"
  define ob3 where "ob3 = set_Quantity a (Quantity (heap ob a) - q)
                    (set_Quantity b (Quantity (heap ob b) - q)
                      (ob\<lparr>LastTradedPrice := Price (heap ob a)\<rparr>))"
  have at: "after_trade ob b a = remove_if_filled a (remove_if_filled b ob3)"
    using ab by (simp add: after_trade_def Let_def ob3_def q_def)
  have bc3: "book_consistent ob3"
    unfolding ob3_def using bc by (simp add: consistent_set_Quantity)
  have r3: "resting ob3 = resting ob" by (simp add: ob3_def)
  have qb: "Quantity (heap ob3 b) = Quantity (heap ob b) - q"
    and qa: "Quantity (heap ob3 a) = Quantity (heap ob a) - q"
    using ab by (simp_all add: ob3_def)
  let ?ob4 = "remove_if_filled b ob3"
  have bc4: "book_consistent ?ob4"
    and r4: "resting ?ob4 = (if Quantity (heap ob3 b) = 0 then remove1 b (resting ob)
                              else resting ob)"
    using consistent_remove_if_filled[OF bc3, of b] br by (simp_all add: r3)
  have a4: "a \<in> set (resting ?ob4)" using ar ab by (simp add: r4)
  have bc5: "book_consistent (remove_if_filled a ?ob4)"
    and r5: "resting (remove_if_filled a ?ob4) =
               (if Quantity (heap ob3 a) = 0 then remove1 a (resting ?ob4) else resting ?ob4)"
    using consistent_remove_if_filled[OF bc4 a4] by simp_all
  show "book_consistent (after_trade ob b a)" using bc5 by (simp add: at)
  have z: "Quantity (heap ob3 b) = 0 \<or> Quantity (heap ob3 a) = 0"
    using min_f_zero[of "Quantity (heap ob b)" "Quantity (heap ob a)"] by (simp add: qb qa q_def)
  have l4: "length (resting ?ob4) \<le> length (resting ob)"
    "Quantity (heap ob3 b) = 0 \<Longrightarrow> length (resting ?ob4) < length (resting ob)"
    using br length_pos_if_in_set[OF br] by (auto simp: r4 length_remove1)
  have l5: "length (resting (remove_if_filled a ?ob4)) \<le> length (resting ?ob4)"
    "Quantity (heap ob3 a) = 0
       \<Longrightarrow> length (resting (remove_if_filled a ?ob4)) < length (resting ?ob4)"
    using a4 length_pos_if_in_set[OF a4] by (auto simp: r5 length_remove1)
  show "length (resting (after_trade ob b a)) < length (resting ob)"
    using z l4 l5 by (auto simp: at)
qed

lemma match_step_consistent:
  assumes bc: "book_consistent ob" and st: "match_step ob = Continue t ob'"
  shows "book_consistent ob' \<and> length (resting ob') < length (resting ob)"
proof (cases ob rule: match_step_cases)
  case stop then show ?thesis using st by simp
next
  case (panic hb bt ls st) then show ?thesis using st by simp
next
  case (trade hb bt ls st b bo a ao)
  have b: "b \<in> set (ptrs (BuyTree ob))" and a: "a \<in> set (ptrs (SellTree ob))"
    using trade by simp_all
  have "ob' = after_trade ob b a" using st trade(6) by simp
  then show ?thesis using consistent_after_trade[OF bc b a] by simp
qed

lemma match_step_no_panic: "index_ok ob \<Longrightarrow> match_step ob \<noteq> Panic"
proof (cases ob rule: match_step_cases)
  case (panic hb bt ls st)
  assume "index_ok ob"
  then have "OrdersL hb \<noteq> []" "OrdersL ls \<noteq> []"
    using panic(2,3) by (simp_all add: index_ok_def side_index_ok_def)
  then show ?thesis using panic(4) by simp
qed simp_all

lemma MatchOrders_returns:
  "book_consistent ob
     \<Longrightarrow> \<exists>ob'. MatchOrders ob = Some (Some ob') \<and> book_consistent ob' \<and> match_step ob' = Break"
proof (induction "length (resting ob)" arbitrary: ob rule: less_induct)
  case less
  show ?case
  proof (cases "match_step ob")
    case Break
    then have "MatchOrders ob = Some (Some ob)" by (subst MatchOrders.simps) simp
    then show ?thesis using less.prems Break by simp
  next
    case Panic
    then show ?thesis
      using match_step_no_panic[of ob] less.prems
      by (simp add: book_consistent_def views_agree_def)
  next
    case (Continue t ob1)
    have "book_consistent ob1" "length (resting ob1) < length (resting ob)"
      using match_step_consistent[OF less.prems Continue] by simp_all
    then obtain ob' where "MatchOrders ob1 = Some (Some ob')" "book_consistent ob'"
      "match_step ob' = Break"
      using less.hyps by blast
    moreover have "MatchOrders ob = MatchOrders ob1"
      using Continue by (subst MatchOrders.simps) simp
    ultimately show ?thesis by simp
  qed
qed

lemma reachable_unique_ids_consistent: "reachable_unique_ids ob \<Longrightarrow> book_consistent ob"
proof (induction rule: reachable_unique_ids.induct)
  case (new h) show ?case by (rule consistent_New)
next
  case (add ob order) then show ?case by (simp add: consistent_AddOrder)
next
  case (remove ob orderID) then show ?case by (simp add: consistent_RemoveOrder)
next
  case (price ob orderID newPrice) then show ?case by (simp add: consistent_ModifyOrderPrice)
next
  case (side ob orderID newSide) then show ?case by (simp add: consistent_ModifyOrderSide)
next
  case (quantity ob orderID newQuantity)
  then show ?case by (simp add: consistent_ModifyOrderQuantity)
next
  case (match ob ob')
  then show ?case using MatchOrders_returns[of ob] by auto
qed

subsection \<open>Level sequences after an admission; admission then removal\<close>

lemma tree_ok_prices_buy: "tree_ok True t \<Longrightarrow> sorted_wrt (>) (map PriceL t)"
  by (induction t) (auto simp: tree_ok_Cons better_def)

lemma tree_ok_prices_sell: "tree_ok False t \<Longrightarrow> sorted_wrt (<) (map PriceL t)"
  by (induction t) (auto simp: tree_ok_Cons better_def)

lemma sorted_wrt_distinct_gt: "sorted_wrt (>) (xs::real list) \<Longrightarrow> distinct xs"
  by (induction xs) auto

lemma sorted_wrt_distinct_lt: "sorted_wrt (<) (xs::real list) \<Longrightarrow> distinct xs"
  by (induction xs) auto

lemma orders_at_Nil [simp]: "orders_at [] pr = []"
  by (simp add: orders_at_def)

lemma orders_at_Cons:
  "orders_at (x # xs) pr = (if PriceL x = pr then OrdersL x else orders_at xs pr)"
  by (simp add: orders_at_def)

lemma orders_at_absent: "\<forall>l\<in>set t. PriceL l \<noteq> pr \<Longrightarrow> orders_at t pr = []"
  by (induction t) (auto simp: orders_at_Cons)

lemma add_to_tree_orders_at:
  assumes "tree_ok b t" "on_side b k"
  shows "orders_at (add_to_tree p k t) pr =
           (if pr = PriceL k then orders_at t pr @ [p] else orders_at t pr)"
  using assms
proof (induction t)
  case Nil then show ?case by (simp add: add_to_tree_Nil orders_at_Cons)
next
  case (Cons x xs)
  have s: "\<forall>l\<in>set (x # xs). on_side b l" using Cons.prems(1) by (rule tree_ok_sides)
  have ih: "orders_at (add_to_tree p k xs) pr =
              (if pr = PriceL k then orders_at xs pr @ [p] else orders_at xs pr)"
    using Cons by (simp add: tree_ok_Cons)
  show ?case
  proof (cases "better b (PriceL k) (PriceL x)")
    case True
    have "\<forall>l\<in>set xs. PriceL l \<noteq> PriceL k"
      using Cons.prems(1) True by (auto simp: tree_ok_Cons better_def split: if_splits)
    then have "orders_at xs (PriceL k) = []" by (rule orders_at_absent)
    moreover have "PriceL x \<noteq> PriceL k" using True by auto
    ultimately show ?thesis using True
      by (simp add: add_to_tree_Cons[OF s Cons.prems(2)] orders_at_Cons)
  next
    case False
    then show ?thesis using ih
      by (auto simp: add_to_tree_Cons[OF s Cons.prems(2)] orders_at_Cons)
  qed
qed

lemma remove_by_id_append_fresh:
  "\<forall>q\<in>set xs. OrderID (h q) \<noteq> OrderID (h p)
     \<Longrightarrow> remove_by_id h (OrderID (h p)) (xs @ [p]) = Some xs"
  by (induction xs) auto

lemma remove_add_tree:
  assumes "side_index_ok b t" "(Side (h p) = ''buy'') = b"
    and "\<forall>q\<in>set (ptrs t). OrderID (h q) \<noteq> OrderID (h p)"
  shows "remove_from_tree h p
           (add_to_tree p \<lparr>PriceL = Price (h p), OrdersL = [], SideL = Side (h p)\<rparr> t) = t"
  using assms
proof (induction t)
  case Nil
  have "\<forall>l\<in>set [\<lparr>PriceL = Price (h p), OrdersL = [p], SideL = Side (h p)\<rparr>]. on_side b l"
    using Nil.prems(2) by (simp add: on_side_def)
  then show ?case using Nil.prems(2)
    by (simp add: add_to_tree_Nil remove_from_tree_Cons[where h=h and p=p and b=b])
next
  case (Cons x xs)
  let ?k = "\<lparr>PriceL = Price (h p), OrdersL = [], SideL = Side (h p)\<rparr>"
  have k: "on_side b ?k" using Cons.prems(2) by (simp add: on_side_def)
  have s: "\<forall>l\<in>set (x # xs). on_side b l"
    using Cons.prems(1) by (simp add: side_index_ok_def tree_ok_def)
  have s': "\<forall>l\<in>set (add_to_tree p ?k (x # xs)). on_side b l"
    using add_to_tree_sides[OF s k] .
  have ne: "OrdersL x \<noteq> []" using Cons.prems(1) by (simp add: side_index_ok_def)
  have ih: "remove_from_tree h p (add_to_tree p ?k xs) = xs"
    using Cons by (simp add: side_index_ok_def tree_ok_Cons)
  have fresh: "\<forall>q\<in>set (OrdersL x). OrderID (h q) \<noteq> OrderID (h p)"
    using Cons.prems(3) by simp
  show ?case
  proof (cases "better b (Price (h p)) (PriceL x)")
    case True
    have a: "add_to_tree p ?k (x # xs) = ?k\<lparr>OrdersL := [p]\<rparr> # x # xs"
      unfolding add_to_tree_Cons[OF s k] using True by simp
    have "\<forall>l\<in>set (?k\<lparr>OrdersL := [p]\<rparr> # x # xs). on_side b l"
      using s k by (simp add: on_side_def)
    from remove_from_tree_Cons[where h=h and p=p, OF this Cons.prems(2)]
    have "remove_from_tree h p (?k\<lparr>OrdersL := [p]\<rparr> # x # xs) = x # xs" by simp
    then show ?thesis unfolding a .
  next
    case False
    show ?thesis
    proof (cases "Price (h p) = PriceL x")
      case True
      have a: "add_to_tree p ?k (x # xs) = x\<lparr>OrdersL := OrdersL x @ [p]\<rparr> # xs"
        unfolding add_to_tree_Cons[OF s k] using True by simp
      have "\<forall>l\<in>set (x\<lparr>OrdersL := OrdersL x @ [p]\<rparr> # xs). on_side b l" using s by simp
      from remove_from_tree_Cons[where h=h and p=p, OF this Cons.prems(2)] True ne
      have "remove_from_tree h p (x\<lparr>OrdersL := OrdersL x @ [p]\<rparr> # xs) = x # xs"
        by (simp add: remove_by_id_append_fresh[OF fresh])
      then show ?thesis unfolding a .
    next
      case neq: False
      have a: "add_to_tree p ?k (x # xs) = x # add_to_tree p ?k xs"
        unfolding add_to_tree_Cons[OF s k] using False neq by simp
      have "\<forall>l\<in>set (x # add_to_tree p ?k xs). on_side b l"
        using s' unfolding a .
      from remove_from_tree_Cons[where h=h and p=p, OF this Cons.prems(2)] False neq ih
      have "remove_from_tree h p (x # add_to_tree p ?k xs) = x # xs" by simp
      then show ?thesis unfolding a .
    qed
  qed
qed

subsection \<open>The concrete books\<close>

lemma dup_book_eq:
  "dup_book =
     \<lparr>BuyTree = [\<lparr>PriceL = 100, OrdersL = [1, 2], SideL = ''buy''\<rparr>], SellTree = [],
      Orders = [''A'' \<mapsto> 2], LastTradedPrice = 0, heap = dup_heap\<rparr>"
  by (simp add: dup_book_def AddOrder_def NewOrderBook_def dup_heap_def add_to_tree_def Less_def)

lemma zombie_book_eq:
  "zombie_book =
     \<lparr>BuyTree = [\<lparr>PriceL = 100, OrdersL = [2], SideL = ''buy''\<rparr>], SellTree = [],
      Orders = Map.empty, LastTradedPrice = 0, heap = dup_heap\<rparr>"
  unfolding zombie_book_def dup_book_eq
  by (simp add: RemoveOrder_def removeOrder_def remove_from_tree_def Less_def dup_heap_def)


lemma reachable_main_book: "reachable main_book"
  unfolding main_book_def by (intro reachable.add reachable.new)

lemma reachable_unique_ids_main_book: "reachable_unique_ids main_book"
  unfolding main_book_def
  by (intro reachable_unique_ids.add reachable_unique_ids.new)
     (simp_all add: NewOrderBook_def main_heap_def order_B1_def order_S1_def order_B2_def
        order_S2_def)

lemma reachable_dup_book: "reachable dup_book"
  unfolding dup_book_def by (intro reachable.add reachable.new)

lemma reachable_zombie_book: "reachable zombie_book"
  unfolding zombie_book_def by (intro reachable.remove reachable_dup_book)


subsection \<open>Consistent books satisfy the invariant; a loop that does not return\<close>







subsection \<open>One iteration of the loop, field by field\<close>




lemma consistent_main_book: "book_consistent main_book"
  by (rule reachable_unique_ids_consistent) (rule reachable_unique_ids_main_book)

section \<open>The claims\<close>

text \<open>
  C1. From the empty book, after the admissions of B1 (buy, 100, 10), S1 (sell, 105, 5),
  B2 (buy, 102, 7) and S2 (sell, 99, 8), \<^verbatim>\<open>MatchOrders\<close> returns and leaves exactly
  B1 at 100 on the bid side with quantity 9 and S1 at 105 on the ask side with quantity 5;
  the id map holds these two orders only, the last traded price is 99 and
  \<^verbatim>\<open>GetCurrentMarketPrice\<close> answers 99.
\<close>

theorem C1_main_scenario:
  "MatchOrders (AddOrder 4 (AddOrder 3 (AddOrder 2 (AddOrder 1 (NewOrderBook main_heap)))))
     = Some (Some main_matched)
   \<and> BuyTree main_matched = [\<lparr>PriceL = 100, OrdersL = [1], SideL = ''buy''\<rparr>]
   \<and> SellTree main_matched = [\<lparr>PriceL = 105, OrdersL = [2], SideL = ''sell''\<rparr>]
   \<and> heap main_matched 1
       = \<lparr>OrderID = ''B1'', Price = 100, Quantity = 9, Timestamp = 1, Side = ''buy''\<rparr>
   \<and> heap main_matched 2
       = \<lparr>OrderID = ''S1'', Price = 105, Quantity = 5, Timestamp = 2, Side = ''sell''\<rparr>
   \<and> Orders main_matched = [''B1'' \<mapsto> 1, ''S1'' \<mapsto> 2]
   \<and> LastTradedPrice main_matched = 99
   \<and> GetCurrentMarketPrice main_matched = (99, True)"
proof -
  have run: "MatchOrders (AddOrder 4 (AddOrder 3 (AddOrder 2 (AddOrder 1 (NewOrderBook main_heap)))))
               = Some (Some main_matched)"
    using main_book_matched by (simp only: main_book_def)
  have rest: "BuyTree main_matched = [\<lparr>PriceL = 100, OrdersL = [1], SideL = ''buy''\<rparr>]"
    "SellTree main_matched = [\<lparr>PriceL = 105, OrdersL = [2], SideL = ''sell''\<rparr>]"
    "heap main_matched 1
       = \<lparr>OrderID = ''B1'', Price = 100, Quantity = 9, Timestamp = 1, Side = ''buy''\<rparr>"
    "heap main_matched 2
       = \<lparr>OrderID = ''S1'', Price = 105, Quantity = 5, Timestamp = 2, Side = ''sell''\<rparr>"
    "Orders main_matched = [''B1'' \<mapsto> 1, ''S1'' \<mapsto> 2]"
    "LastTradedPrice main_matched = 99"
    "GetCurrentMarketPrice main_matched = (99, True)"
    by (simp_all add: main_matched_def order_B1_def order_S1_def GetCurrentMarketPrice_def)
  from run rest show ?thesis by (simp only: simp_thms)
qed










text \<open>
  C5. In every reachable book the prices of the bid index, in best-first order, strictly
  decrease and the prices of the ask index strictly increase; no two levels of one side
  share a price.
\<close>

theorem C5_prices_strictly_monotone:
  assumes "reachable ob"
  shows "sorted_wrt (>) (map PriceL (BuyTree ob)) \<and> sorted_wrt (<) (map PriceL (SellTree ob))
         \<and> distinct (map PriceL (BuyTree ob)) \<and> distinct (map PriceL (SellTree ob))"
proof -
  have "index_ok ob" using assms by (rule reachable_index_ok)
  then have "tree_ok True (BuyTree ob)" "tree_ok False (SellTree ob)"
    by (simp_all add: index_ok_def side_index_ok_def)
  then have "sorted_wrt (>) (map PriceL (BuyTree ob))" "sorted_wrt (<) (map PriceL (SellTree ob))"
    by (simp_all add: tree_ok_prices_buy tree_ok_prices_sell)
  then show ?thesis by (simp add: sorted_wrt_distinct_gt sorted_wrt_distinct_lt)
qed

text \<open>The book of \<^verbatim>\<open>main\<close> before matching: bids 102, 100 and asks 99, 105.\<close>

theorem C5_witness:
  "reachable main_book
   \<and> sorted_wrt (>) (map PriceL (BuyTree main_book))
   \<and> sorted_wrt (<) (map PriceL (SellTree main_book))
   \<and> map PriceL (BuyTree main_book) = [102, 100]
   \<and> map PriceL (SellTree main_book) = [99, 105]"
proof -
  have r: "reachable main_book" by (rule reachable_main_book)
  have "map PriceL (BuyTree main_book) = [102, 100]" "map PriceL (SellTree main_book) = [99, 105]"
    by (simp_all add: main_book_eq)
  then show ?thesis using r C5_prices_strictly_monotone[OF r] by simp
qed

text \<open>
  C6. When \<^verbatim>\<open>RemoveOrder\<close>, \<^verbatim>\<open>ModifyOrderPrice\<close>, \<^verbatim>\<open>ModifyOrderSide\<close> or
  \<^verbatim>\<open>ModifyOrderQuantity\<close> returns an error, the book after the call is the book before
  it: both indexes, the id map, and with them the last traded price and the orders.
\<close>

theorem C6_error_leaves_book_unchanged:
  "(fst (RemoveOrder orderID ob) \<noteq> None \<longrightarrow> snd (RemoveOrder orderID ob) = ob)
   \<and> (fst (ModifyOrderPrice orderID newPrice ob) \<noteq> None
        \<longrightarrow> snd (ModifyOrderPrice orderID newPrice ob) = ob)
   \<and> (fst (ModifyOrderSide orderID newSide ob) \<noteq> None
        \<longrightarrow> snd (ModifyOrderSide orderID newSide ob) = ob)
   \<and> (fst (ModifyOrderQuantity orderID newQuantity ob) \<noteq> None
        \<longrightarrow> snd (ModifyOrderQuantity orderID newQuantity ob) = ob)"
  by (simp add: RemoveOrder_def ModifyOrderPrice_def ModifyOrderSide_def ModifyOrderQuantity_def
      Let_def split: option.splits)

text \<open>The four operations, each with an argument it refuses.\<close>

theorem C6_witness:
  "fst (RemoveOrder ''X'' main_book) = Some ''order not found''
   \<and> snd (RemoveOrder ''X'' main_book) = main_book
   \<and> fst (ModifyOrderPrice ''X'' 1 main_book) = Some ''order not found''
   \<and> snd (ModifyOrderPrice ''X'' 1 main_book) = main_book
   \<and> fst (ModifyOrderSide ''B1'' ''hold'' main_book) = Some ''invalid side''
   \<and> snd (ModifyOrderSide ''B1'' ''hold'' main_book) = main_book
   \<and> fst (ModifyOrderQuantity ''B1'' (- 1) main_book) = Some ''invalid quantity''
   \<and> snd (ModifyOrderQuantity ''B1'' (- 1) main_book) = main_book"
proof -
  have e: "fst (RemoveOrder ''X'' main_book) = Some ''order not found''"
    "fst (ModifyOrderPrice ''X'' 1 main_book) = Some ''order not found''"
    "fst (ModifyOrderSide ''B1'' ''hold'' main_book) = Some ''invalid side''"
    "fst (ModifyOrderQuantity ''B1'' (- 1) main_book) = Some ''invalid quantity''"
    by (simp_all add: main_book_eq RemoveOrder_def ModifyOrderPrice_def ModifyOrderSide_def
        ModifyOrderQuantity_def)
  then show ?thesis
    using C6_error_leaves_book_unchanged[of "''X''" main_book 1 "''hold''" "- 1"]
      C6_error_leaves_book_unchanged[of "''B1''" main_book 1 "''hold''" "- 1"]
    by simp
qed

text \<open>
  C7 (as amended). In every reachable book, for every order whose identifier is neither in
  the id map nor carried by an order that rests in the book, \<^verbatim>\<open>AddOrder\<close> followed by
  \<^verbatim>\<open>RemoveOrder\<close> of that identifier succeeds and gives back the book as it was.
\<close>

theorem C7_add_then_remove_restores:
  assumes "reachable ob"
    and "Orders ob (OrderID (heap ob order)) = None"
    and "\<forall>q\<in>set (resting ob). OrderID (heap ob q) \<noteq> OrderID (heap ob order)"
  shows "RemoveOrder (OrderID (heap ob order)) (AddOrder order ob) = (None, ob)"
proof -
  have io: "side_index_ok True (BuyTree ob)" "side_index_ok False (SellTree ob)"
    using reachable_index_ok[OF assms(1)] by (simp_all add: index_ok_def)
  have fb: "\<forall>q\<in>set (ptrs (BuyTree ob)). OrderID (heap ob q) \<noteq> OrderID (heap ob order)"
    and fs: "\<forall>q\<in>set (ptrs (SellTree ob)). OrderID (heap ob q) \<noteq> OrderID (heap ob order)"
    using assms(3) by (simp_all add: resting_Un)
  let ?ob' = "snd (RemoveOrder (OrderID (heap ob order)) (AddOrder order ob))"
  have e: "fst (RemoveOrder (OrderID (heap ob order)) (AddOrder order ob)) = None"
    by (simp add: RemoveOrder_def Let_def)
  have m: "Orders ?ob' = Orders ob"
    using assms(2) by (simp add: RemoveOrder_def Let_def fun_upd_idem)
  have h: "heap ?ob' = heap ob" "LastTradedPrice ?ob' = LastTradedPrice ob"
    by (simp_all add: RemoveOrder_def Let_def)
  have t: "BuyTree ?ob' = BuyTree ob \<and> SellTree ?ob' = SellTree ob"
  proof (cases "Side (heap ob order) = ''buy''")
    case True
    then show ?thesis
      using remove_add_tree[where h = "heap ob" and p = order, OF io(1) _ fb]
      by (simp add: RemoveOrder_def Let_def)
  next
    case False
    then show ?thesis
      using remove_add_tree[where h = "heap ob" and p = order, OF io(2) _ fs]
      by (simp add: RemoveOrder_def Let_def)
  qed
  have "?ob' = ob" using m h t by (intro OrderBook.equality) simp_all
  then show ?thesis using e by (metis prod.collapse)
qed

text \<open>
  C7 as stated, with the identifier absent from the id map only, fails: \<open>zombie_book\<close> has
  no entry for A in the id map while the order at address 2, which carries A, rests at
  100. Adding the order at address 4 (A, buy, 100) and removing A takes out the order at
  address 2 and leaves the new one in the level.
\<close>

theorem C7_counterexample:
  "reachable zombie_book
   \<and> Orders zombie_book (OrderID (heap zombie_book 4)) = None
   \<and> fst (RemoveOrder (OrderID (heap zombie_book 4)) (AddOrder 4 zombie_book)) = None
   \<and> BuyTree zombie_book = [\<lparr>PriceL = 100, OrdersL = [2], SideL = ''buy''\<rparr>]
   \<and> BuyTree (snd (RemoveOrder (OrderID (heap zombie_book 4)) (AddOrder 4 zombie_book)))
       = [\<lparr>PriceL = 100, OrdersL = [4], SideL = ''buy''\<rparr>]
   \<and> snd (RemoveOrder (OrderID (heap zombie_book 4)) (AddOrder 4 zombie_book)) \<noteq> zombie_book"
proof -
  have r: "reachable zombie_book" by (rule reachable_zombie_book)
  have t: "BuyTree (snd (RemoveOrder (OrderID (heap zombie_book 4)) (AddOrder 4 zombie_book)))
       = [\<lparr>PriceL = 100, OrdersL = [4], SideL = ''buy''\<rparr>]"
    unfolding zombie_book_eq
    by (simp add: RemoveOrder_def AddOrder_def removeOrder_def remove_from_tree_def
        add_to_tree_def Less_def dup_heap_def Let_def)
  have z: "BuyTree zombie_book = [\<lparr>PriceL = 100, OrdersL = [2], SideL = ''buy''\<rparr>]"
    "Orders zombie_book (OrderID (heap zombie_book 4)) = None"
    "fst (RemoveOrder (OrderID (heap zombie_book 4)) (AddOrder 4 zombie_book)) = None"
    by (simp_all add: zombie_book_eq RemoveOrder_def AddOrder_def Let_def)
  have "snd (RemoveOrder (OrderID (heap zombie_book 4)) (AddOrder 4 zombie_book)) \<noteq> zombie_book"
    using t z(1) by auto
  then show ?thesis using r t z by simp
qed

text \<open>The book of \<^verbatim>\<open>main\<close> and the order at address 5, whose identifier is empty.\<close>

theorem C7_witness:
  "reachable main_book \<and> Orders main_book (OrderID (heap main_book 5)) = None
   \<and> list_all (\<lambda>q. OrderID (heap main_book q) \<noteq> OrderID (heap main_book 5)) (resting main_book)
   \<and> RemoveOrder (OrderID (heap main_book 5)) (AddOrder 5 main_book) = (None, main_book)"
proof -
  have r: "reachable main_book" by (rule reachable_main_book)
  have f: "Orders main_book (OrderID (heap main_book 5)) = None"
    by (simp add: main_book_eq main_heap_def no_order_def)
  have n: "\<forall>q\<in>set (resting main_book). OrderID (heap main_book q) \<noteq> OrderID (heap main_book 5)"
    by (simp add: main_book_eq resting_def main_heap_def no_order_def order_B1_def order_S1_def
        order_B2_def order_S2_def)
  show ?thesis
    using r f n C7_add_then_remove_restores[OF r f n] by (simp add: list_all_iff)
qed

text \<open>
  C8 (as amended). \<^verbatim>\<open>ModifyOrderQuantity\<close> refuses a negative quantity with
  "invalid quantity" whatever the identifier; otherwise it refuses an identifier the id
  map does not hold with "order not found"; with the quantity zero, in a consistent book,
  it takes the order out of the level sequences (the others keep their order, no level is
  left empty), deletes the identifier from the id map and leaves a consistent book; with a
  positive quantity it writes the quantity into the order and changes nothing else, so the
  order keeps its place in its level.
\<close>

theorem C8_ModifyOrderQuantity_cases:
  "(newQuantity < 0
      \<longrightarrow> ModifyOrderQuantity orderID newQuantity ob = (Some ''invalid quantity'', ob))
   \<and> (\<not> newQuantity < 0 \<and> Orders ob orderID = None
      \<longrightarrow> ModifyOrderQuantity orderID newQuantity ob = (Some ''order not found'', ob))
   \<and> (newQuantity = 0 \<and> Orders ob orderID = Some order \<and> book_consistent ob
      \<longrightarrow> fst (ModifyOrderQuantity orderID newQuantity ob) = None
          \<and> resting (snd (ModifyOrderQuantity orderID newQuantity ob))
              = remove1 order (resting ob)
          \<and> order \<notin> set (resting (snd (ModifyOrderQuantity orderID newQuantity ob)))
          \<and> list_all (\<lambda>l. OrdersL l \<noteq> [])
               (BuyTree (snd (ModifyOrderQuantity orderID newQuantity ob))
                @ SellTree (snd (ModifyOrderQuantity orderID newQuantity ob)))
          \<and> Orders (snd (ModifyOrderQuantity orderID newQuantity ob))
              = (Orders ob)(orderID := None)
          \<and> heap (snd (ModifyOrderQuantity orderID newQuantity ob)) = heap ob
          \<and> book_consistent (snd (ModifyOrderQuantity orderID newQuantity ob)))
   \<and> (0 < newQuantity \<and> Orders ob orderID = Some order
      \<longrightarrow> ModifyOrderQuantity orderID newQuantity ob
            = (None, ob\<lparr>heap := (heap ob)(order := (heap ob order)\<lparr>Quantity := newQuantity\<rparr>)\<rparr>))"
proof (intro conjI impI)
  assume a: "newQuantity = 0 \<and> Orders ob orderID = Some order \<and> book_consistent ob"
  let ?ob' = "(removeOrder order ob)\<lparr>Orders := (Orders ob)(orderID := None)\<rparr>"
  have m: "ModifyOrderQuantity orderID newQuantity ob = (None, ?ob')"
    using a by (simp add: ModifyOrderQuantity_def Let_def)
  have bc': "book_consistent ?ob'" and r: "resting ?ob' = remove1 order (resting ob)"
    using consistent_remove_delete[of ob orderID order] a by simp_all
  have d: "distinct (resting ob)"
    using a views_agree_parts(6)[OF book_consistent_parts(1)] by blast
  have io: "index_ok ?ob'"
    using views_agree_parts(1)[OF book_consistent_parts(1)[OF bc']] .
  show "fst (ModifyOrderQuantity orderID newQuantity ob) = None" by (simp add: m)
  show "resting (snd (ModifyOrderQuantity orderID newQuantity ob)) = remove1 order (resting ob)"
    using r by (simp add: m)
  show "order \<notin> set (resting (snd (ModifyOrderQuantity orderID newQuantity ob)))"
    using r d by (simp add: m)
  show "list_all (\<lambda>l. OrdersL l \<noteq> [])
               (BuyTree (snd (ModifyOrderQuantity orderID newQuantity ob))
                @ SellTree (snd (ModifyOrderQuantity orderID newQuantity ob)))"
    using io unfolding m
    by (auto simp: index_ok_def side_index_ok_def list_all_iff split: if_splits)
  show "Orders (snd (ModifyOrderQuantity orderID newQuantity ob)) = (Orders ob)(orderID := None)"
    by (simp add: m)
  show "heap (snd (ModifyOrderQuantity orderID newQuantity ob)) = heap ob" by (simp add: m)
  show "book_consistent (snd (ModifyOrderQuantity orderID newQuantity ob))"
    using bc' by (simp add: m)
qed (simp_all add: ModifyOrderQuantity_def)

text \<open>
  C8 as stated fails for the quantity zero after one identifier was admitted twice: in
  \<open>dup_book\<close> the id map has the order at address 2 for A; the call takes the order at
  address 1 out of the level and deletes A from the map, and the order at address 2 stays
  in its level.
\<close>

theorem C8_counterexample:
  "reachable dup_book \<and> Orders dup_book ''A'' = Some 2
   \<and> fst (ModifyOrderQuantity ''A'' 0 dup_book) = None
   \<and> BuyTree (snd (ModifyOrderQuantity ''A'' 0 dup_book))
       = [\<lparr>PriceL = 100, OrdersL = [2], SideL = ''buy''\<rparr>]
   \<and> 2 \<in> set (resting (snd (ModifyOrderQuantity ''A'' 0 dup_book)))"
proof -
  have "snd (ModifyOrderQuantity ''A'' 0 dup_book) = zombie_book"
    "fst (ModifyOrderQuantity ''A'' 0 dup_book) = None"
    "Orders dup_book ''A'' = Some 2"
    unfolding zombie_book_eq unfolding dup_book_eq
    by (simp_all add: ModifyOrderQuantity_def removeOrder_def remove_from_tree_def Less_def
        dup_heap_def)
  then show ?thesis using reachable_dup_book by (simp add: zombie_book_eq resting_def)
qed

text \<open>The four cases on the book of \<^verbatim>\<open>main\<close>.\<close>

theorem C8_witness:
  "book_consistent main_book \<and> Orders main_book ''B1'' = Some 1
   \<and> Orders main_book ''ZZ'' = None
   \<and> ModifyOrderQuantity ''B1'' (- 1) main_book = (Some ''invalid quantity'', main_book)
   \<and> ModifyOrderQuantity ''ZZ'' 1 main_book = (Some ''order not found'', main_book)
   \<and> resting main_book = [3, 1, 4, 2]
   \<and> resting (snd (ModifyOrderQuantity ''B1'' 0 main_book)) = [3, 4, 2]
   \<and> Orders (snd (ModifyOrderQuantity ''B1'' 0 main_book)) ''B1'' = None
   \<and> ModifyOrderQuantity ''B1'' 4 main_book
       = (None, main_book\<lparr>heap := (heap main_book)(1 := (heap main_book 1)\<lparr>Quantity := 4\<rparr>)\<rparr>)"
proof -
  have a: "Orders main_book ''B1'' = Some 1" "Orders main_book ''ZZ'' = None"
    "resting main_book = [3, 1, 4, 2]"
    by (simp_all add: main_book_eq resting_def)
  show ?thesis
    using a consistent_main_book
      C8_ModifyOrderQuantity_cases[of "- 1" "''B1''" main_book 1]
      C8_ModifyOrderQuantity_cases[of 1 "''ZZ''" main_book 1]
      C8_ModifyOrderQuantity_cases[of 0 "''B1''" main_book 1]
      C8_ModifyOrderQuantity_cases[of 4 "''B1''" main_book 1]
    by simp
qed



text \<open>
  C10. \<^verbatim>\<open>AddOrder\<close> has no error result and checks nothing. In every reachable book, for
  every order whose side is any string other than "buy", the call registers the order
  under its identifier, appends it to the sequence of the ask level at its price (a new
  level when there was none), leaves the other ask levels, the bid index and the store as
  they are: the order is admitted with whatever price and quantity it carries.
\<close>

theorem C10_AddOrder_admits_any_order:
  assumes "reachable ob" "Side (heap ob order) \<noteq> ''buy''"
  shows "Orders (AddOrder order ob) (OrderID (heap ob order)) = Some order
         \<and> orders_at (SellTree (AddOrder order ob)) (Price (heap ob order))
             = orders_at (SellTree ob) (Price (heap ob order)) @ [order]
         \<and> (\<forall>price. price \<noteq> Price (heap ob order)
              \<longrightarrow> orders_at (SellTree (AddOrder order ob)) price = orders_at (SellTree ob) price)
         \<and> BuyTree (AddOrder order ob) = BuyTree ob
         \<and> heap (AddOrder order ob) = heap ob"
proof -
  have "index_ok ob" using assms(1) by (rule reachable_index_ok)
  then have t: "tree_ok False (SellTree ob)" by (simp add: index_ok_def side_index_ok_def)
  have k: "on_side False \<lparr>PriceL = Price (heap ob order), OrdersL = [],
                          SideL = Side (heap ob order)\<rparr>"
    using assms(2) by (simp add: on_side_def)
  show ?thesis using assms(2) by (simp add: add_to_tree_orders_at[OF t k])
qed

text \<open>An order with the side "hold", the price -3 and the quantity 0.\<close>

theorem C10_witness:
  "reachable (NewOrderBook odd_heap) \<and> Side (odd_heap 5) \<noteq> ''buy'' \<and> Side (odd_heap 5) \<noteq> ''sell''
   \<and> Orders (AddOrder 5 (NewOrderBook odd_heap)) ''X1'' = Some 5
   \<and> orders_at (SellTree (AddOrder 5 (NewOrderBook odd_heap))) (- 3) = [5]
   \<and> heap (AddOrder 5 (NewOrderBook odd_heap)) 5
       = \<lparr>OrderID = ''X1'', Price = - 3, Quantity = 0, Timestamp = 5, Side = ''hold''\<rparr>"
proof -
  have r: "reachable (NewOrderBook odd_heap)" by (rule reachable.new)
  have s: "Side (heap (NewOrderBook odd_heap) 5) \<noteq> ''buy''"
    by (simp add: NewOrderBook_def odd_heap_def)
  have v: "heap (NewOrderBook odd_heap) 5
       = \<lparr>OrderID = ''X1'', Price = - 3, Quantity = 0, Timestamp = 5, Side = ''hold''\<rparr>"
    "SellTree (NewOrderBook odd_heap) = []" "Side (odd_heap 5) \<noteq> ''sell''"
    "Side (odd_heap 5) \<noteq> ''buy''"
    by (simp_all add: NewOrderBook_def odd_heap_def)
  show ?thesis
    using r s v C10_AddOrder_admits_any_order[OF r s] by simp
qed

end
